theory Spec2Isabelle
  imports Complex_Main "HOL-Library.Word" "HOL-Library.List_Lexorder" "HOL-Library.Sublist"
begin

section \<open>Strings and numbers of the host language\<close>

text \<open>
  A string of the program is a sequence of 16-bit code units; \<open><\<close> on strings is the
  lexicographic order on code units in which a proper prefix is smaller, which is the
  order \<^theory_text>\<open>List_Lexorder\<close> puts on lists. Numbers are modelled as
  unbounded integers: the offsets and page sizes of the program are integers, and the
  model says nothing about fractional or non-finite numbers.
\<close>

type_synonym cu = "16 word"
type_synonym jsstring = "cu list"

definition cu :: "char \<Rightarrow> cu" where
  "cu c = of_nat (of_char c)"

definition js :: "string \<Rightarrow> jsstring" where
  "js = map cu"

text \<open>Truthiness of an optional string: \<open>undefined\<close> and the empty string are falsy.\<close>

definition truthy :: "jsstring option \<Rightarrow> bool" where
  "truthy s = (case s of None \<Rightarrow> False | Some t \<Rightarrow> t \<noteq> [])"

text \<open>
  \<open>String.prototype.trim\<close> removes white space and line terminators from both ends:
  TAB, LF, VT, FF, CR, SP, NBSP, U+1680, U+2000..U+200A, U+2028, U+2029, U+202F, U+205F,
  U+3000 and U+FEFF.
\<close>

definition is_js_space :: "cu \<Rightarrow> bool" where
  "is_js_space c =
     (c = 0x09 \<or> c = 0x0A \<or> c = 0x0B \<or> c = 0x0C \<or> c = 0x0D \<or> c = 0x20 \<or> c = 0xA0
      \<or> c = 0x1680 \<or> (0x2000 \<le> c \<and> c \<le> 0x200A) \<or> c = 0x2028 \<or> c = 0x2029
      \<or> c = 0x202F \<or> c = 0x205F \<or> c = 0x3000 \<or> c = 0xFEFF)"

definition trim :: "jsstring \<Rightarrow> jsstring" where
  "trim s = rev (dropWhile is_js_space (rev (dropWhile is_js_space s)))"

text \<open>
  \<open>s.includes(t)\<close>: is there a position of \<open>s\<close> at which \<open>t\<close> starts. The search
  tries each position from the left.
\<close>

fun includes_js :: "jsstring \<Rightarrow> jsstring \<Rightarrow> bool" where
  "includes_js [] t = (t = [])"
| "includes_js (c # s) t = (prefix t (c # s) \<or> includes_js s t)"

text \<open>
  \<open>toLocaleLowerCase('en-US')\<close> on the ASCII range: \<open>A\<close>..\<open>Z\<close> become
  \<open>a\<close>..\<open>z\<close>. Code units outside ASCII are left as they are: the Unicode case
  tables are not part of this model. (No code unit outside ASCII has a lower case among
  the letters of \<open>group\<close> and \<open>user\<close>.)
\<close>

definition lower_cu :: "cu \<Rightarrow> cu" where
  "lower_cu c = (if 0x41 \<le> c \<and> c \<le> 0x5A then c + 0x20 else c)"

definition toLocaleLowerCase :: "jsstring \<Rightarrow> jsstring" where
  "toLocaleLowerCase = map lower_cu"

section \<open>Data model\<close>

record metadata =
  name :: jsstring
  namespace :: "jsstring option"

record entity =
  apiVersion :: jsstring
  kind :: jsstring
  metadata :: metadata

record FacetsCursor =
  start :: int
  "text" :: jsstring

text \<open>
  \<open>FacetsEntitiesResponse\<close> and \<open>QueryEntitiesResponse\<close> have the same shape; an
  absent \<open>cursor\<close> is \<open>None\<close>.
\<close>

record response =
  items :: "entity list"
  cursor :: "jsstring option"

text \<open>
  \<open>CombinedRequest\<close>: an initial request (whose \<open>text\<close> may be missing), or a
  continuation request with a \<open>cursor\<close> and the items accumulated so far.
\<close>

datatype request =
  Initial "jsstring option"
| Continuation jsstring "entity list"

record fetch_options =
  limit :: "int option"

text \<open>\<open>options?.limit ?? 20\<close>\<close>

definition limit_of :: "fetch_options option \<Rightarrow> int" where
  "limit_of options = (case options of None \<Rightarrow> 20
                       | Some opts \<Rightarrow> (case limit opts of None \<Rightarrow> 20 | Some l \<Rightarrow> l))"

section \<open>Local filter, comparator and sort of the facet entities\<close>

definition filterEntity :: "jsstring \<Rightarrow> entity \<Rightarrow> bool" where
  "filterEntity t e =
     (let normalizedText = trim t in
        includes_js (kind e) normalizedText
        \<or> (case namespace (metadata e) of None \<Rightarrow> False
             | Some ns \<Rightarrow> includes_js ns normalizedText)
        \<or> includes_js (name (metadata e)) normalizedText)"

text \<open>The comparator passed to \<open>sort\<close>: \<open>-1\<close>, \<open>0\<close> or \<open>1\<close>.\<close>

definition compareEntities :: "entity \<Rightarrow> entity \<Rightarrow> int" where
  "compareEntities a b =
     (if kind a < kind b then -1
      else if kind a > kind b then 1
      else (case (if truthy (namespace (metadata a)) \<and> truthy (namespace (metadata b))
                  then (case (namespace (metadata a), namespace (metadata b)) of
                          (Some x, Some y) \<Rightarrow>
                             if x < y then Some (-1) else if x > y then Some 1 else None
                        | _ \<Rightarrow> None)
                  else None) of
              Some r \<Rightarrow> r
            | None \<Rightarrow>
                if name (metadata a) < name (metadata b) then -1
                else if name (metadata a) > name (metadata b) then 1
                else 0))"

text \<open>
  \<open>Array.prototype.sort\<close> with a comparator is a stable sort. It is modelled as the
  insertion sort that puts an element before the first element it does not compare
  greater than. (For a comparator that is not consistent the language leaves the
  resulting order to the implementation; the model then still returns a permutation.)
\<close>

fun insert_by :: "('a \<Rightarrow> 'a \<Rightarrow> int) \<Rightarrow> 'a \<Rightarrow> 'a list \<Rightarrow> 'a list" where
  "insert_by cmp x [] = [x]"
| "insert_by cmp x (y # ys) = (if cmp x y \<le> 0 then x # y # ys else y # insert_by cmp x ys)"

fun sort_by :: "('a \<Rightarrow> 'a \<Rightarrow> int) \<Rightarrow> 'a list \<Rightarrow> 'a list" where
  "sort_by cmp [] = []"
| "sort_by cmp (x # xs) = insert_by cmp x (sort_by cmp xs)"

text \<open>\<open>facets.filter(e => filterEntity(text, e)).sort(...)\<close>\<close>

definition sortedItems :: "jsstring \<Rightarrow> entity list \<Rightarrow> entity list" where
  "sortedItems t facets = sort_by compareEntities (filter (filterEntity t) facets)"

text \<open>
  \<open>xs.slice(0, end)\<close> for an integer \<open>end\<close>: a negative \<open>end\<close> counts from the end
  of the array, and the window is clamped to the array.
\<close>

definition slice0 :: "'a list \<Rightarrow> int \<Rightarrow> 'a list" where
  "slice0 xs end =
     (let len = int (length xs);
          final = (if end < 0 then max (len + end) 0 else min end len)
      in take (nat final) xs)"

section \<open>Platform functions of the cursor codec\<close>

text \<open>
  The cursor is \<open>btoa(JSON.stringify(payload))\<close> and is read back with
  \<open>JSON.parse(atob(cursor))\<close>. These four functions belong to the platform, not to the
  repository; they are modelled here as their standards define them, each failure being
  an error value. \<open>Failure\<close> stands for any other thrown value (a rejected network
  call, an entity reference that does not parse).
\<close>

datatype error = InvalidCharacterError | SyntaxError | TypeError | Failure jsstring

subsection \<open>Base64: \<open>btoa\<close> and \<open>atob\<close>\<close>

text \<open>The code unit of the base64 alphabet at an index below 64.\<close>

definition b64_code :: "nat \<Rightarrow> nat" where
  "b64_code i =
     (if i < 26 then 0x41 + i
      else if i < 52 then 0x61 + (i - 26)
      else if i < 62 then 0x30 + (i - 52)
      else if i = 62 then 0x2B
      else 0x2F)"

definition b64_char :: "nat \<Rightarrow> cu" where
  "b64_char i = of_nat (b64_code i)"

definition b64_index :: "cu \<Rightarrow> nat option" where
  "b64_index c =
     (let n = unat c in
        if 0x41 \<le> n \<and> n \<le> 0x5A then Some (n - 0x41)
        else if 0x61 \<le> n \<and> n \<le> 0x7A then Some (n - 0x61 + 26)
        else if 0x30 \<le> n \<and> n \<le> 0x39 then Some (n - 0x30 + 52)
        else if n = 0x2B then Some 62
        else if n = 0x2F then Some 63
        else None)"

text \<open>Three bytes give four groups of six bits; one or two trailing bytes give two or three.\<close>

fun b64_sextets :: "nat list \<Rightarrow> nat list" where
  "b64_sextets (a # b # c # bs) =
     [a div 4, (a mod 4) * 16 + b div 16, (b mod 16) * 4 + c div 64, c mod 64] @ b64_sextets bs"
| "b64_sextets [a, b] = [a div 4, (a mod 4) * 16 + b div 16, (b mod 16) * 4]"
| "b64_sextets [a] = [a div 4, (a mod 4) * 16]"
| "b64_sextets [] = []"

fun b64_padding :: "nat list \<Rightarrow> nat" where
  "b64_padding (a # b # c # bs) = b64_padding bs"
| "b64_padding [a, b] = 1"
| "b64_padding [a] = 2"
| "b64_padding [] = 0"

text \<open>
  \<open>btoa\<close> throws on a code unit above \<open>0xFF\<close>; otherwise it encodes the code units as
  bytes and pads with \<open>=\<close> to a multiple of four.
\<close>

definition btoa :: "jsstring \<Rightarrow> error + jsstring" where
  "btoa s =
     (if list_ex (\<lambda>c. c > 0xFF) s then Inl InvalidCharacterError
      else Inr (map b64_char (b64_sextets (map unat s))
                @ replicate (b64_padding (map unat s)) 0x3D))"

definition is_ascii_whitespace :: "cu \<Rightarrow> bool" where
  "is_ascii_whitespace c = (c = 0x09 \<or> c = 0x0A \<or> c = 0x0C \<or> c = 0x0D \<or> c = 0x20)"

text \<open>When the length is a multiple of four, one or two trailing \<open>=\<close> are removed.\<close>

definition remove_padding :: "jsstring \<Rightarrow> jsstring" where
  "remove_padding s =
     (if length s mod 4 = 0 then
        (if suffix [0x3D, 0x3D] s then take (length s - 2) s
         else if suffix [0x3D] s then take (length s - 1) s
         else s)
      else s)"

fun b64_bytes :: "nat list \<Rightarrow> nat list" where
  "b64_bytes (w # x # y # z # ss) =
     [w * 4 + x div 16, (x mod 16) * 16 + y div 4, (y mod 4) * 64 + z] @ b64_bytes ss"
| "b64_bytes [w, x, y] = [w * 4 + x div 16, (x mod 16) * 16 + y div 4]"
| "b64_bytes [w, x] = [w * 4 + x div 16]"
| "b64_bytes [w] = []"
| "b64_bytes [] = []"

text \<open>
  \<open>atob\<close> is the forgiving decoder: ASCII white space is dropped, padding is removed, a
  length of one modulo four or a code unit outside the alphabet is an error, and left-over
  bits of the last group are discarded.
\<close>

definition atob :: "jsstring \<Rightarrow> error + jsstring" where
  "atob s =
     (let data = remove_padding (filter (\<lambda>c. \<not> is_ascii_whitespace c) s) in
        if length data mod 4 = 1 then Inl InvalidCharacterError
        else (case those (map b64_index data) of
                None \<Rightarrow> Inl InvalidCharacterError
              | Some sextets \<Rightarrow> Inr (map of_nat (b64_bytes sextets))))"

subsection \<open>JSON values and \<open>JSON.parse\<close>\<close>

text \<open>
  A number carries the exact value of its literal; rounding to a double is not modelled.
\<close>

datatype json =
  JNull
| JBool bool
| JNumber rat
| JString jsstring
| JArray "json list"
| JObject "(jsstring \<times> json) list"

datatype token =
  TLBrace | TRBrace | TLBracket | TRBracket | TColon | TComma
| TString jsstring | TNumber rat | TTrue | TFalse | TNull

definition hex_value :: "cu \<Rightarrow> nat option" where
  "hex_value c =
     (let n = unat c in
        if 0x30 \<le> n \<and> n \<le> 0x39 then Some (n - 0x30)
        else if 0x61 \<le> n \<and> n \<le> 0x66 then Some (n - 0x61 + 10)
        else if 0x41 \<le> n \<and> n \<le> 0x46 then Some (n - 0x41 + 10)
        else None)"

definition hex4 :: "nat \<Rightarrow> nat \<Rightarrow> nat \<Rightarrow> nat \<Rightarrow> cu" where
  "hex4 a b c d = of_nat (((a * 16 + b) * 16 + c) * 16 + d)"

text \<open>The code unit a one-letter escape stands for: \<open>\" \\ \/ \b \f \n \r \t\<close>.\<close>

definition unescape :: "cu \<Rightarrow> cu option" where
  "unescape e =
     (if e = 0x22 then Some 0x22
      else if e = 0x5C then Some 0x5C
      else if e = 0x2F then Some 0x2F
      else if e = 0x62 then Some 0x08
      else if e = 0x66 then Some 0x0C
      else if e = 0x6E then Some 0x0A
      else if e = 0x72 then Some 0x0D
      else if e = 0x74 then Some 0x09
      else None)"

definition cons_fst :: "'a \<Rightarrow> ('a list \<times> 'b) option \<Rightarrow> ('a list \<times> 'b) option" where
  "cons_fst x r = (case r of None \<Rightarrow> None | Some (xs, rest) \<Rightarrow> Some (x # xs, rest))"

text \<open>
  The characters of a string literal after its opening quote, up to the closing quote:
  the decoded string and the input that follows. A control character, an unknown escape
  or the end of the input is an error.
\<close>

fun lex_string :: "cu list \<Rightarrow> (jsstring \<times> cu list) option" where
  "lex_string [] = None"
| "lex_string (c # cs) =
     (if c = 0x22 then Some ([], cs)
      else if c = 0x5C then
        (case cs of
           [] \<Rightarrow> None
         | e # cs1 \<Rightarrow>
             if e = 0x75 then
               (case cs1 of
                  h1 # h2 # h3 # h4 # cs2 \<Rightarrow>
                    (case (hex_value h1, hex_value h2, hex_value h3, hex_value h4) of
                       (Some a, Some b, Some c, Some d) \<Rightarrow>
                         cons_fst (hex4 a b c d) (lex_string cs2)
                     | _ \<Rightarrow> None)
                | _ \<Rightarrow> None)
             else (case unescape e of
                     None \<Rightarrow> None
                   | Some u \<Rightarrow> cons_fst u (lex_string cs1)))
      else if c < 0x20 then None
      else cons_fst c (lex_string cs))"

definition is_digit :: "cu \<Rightarrow> bool" where
  "is_digit c = (0x30 \<le> unat c \<and> unat c \<le> 0x39)"

definition digits_value :: "cu list \<Rightarrow> nat" where
  "digits_value ds = foldl (\<lambda>a d. 10 * a + (unat d - 0x30)) 0 ds"

text \<open>The integer part of a number: a single \<open>0\<close>, or digits that start with \<open>1\<close>..\<open>9\<close>.\<close>

definition lex_int_part :: "cu list \<Rightarrow> (cu list \<times> cu list) option" where
  "lex_int_part cs =
     (case cs of
        [] \<Rightarrow> None
      | d # r \<Rightarrow>
          if d = 0x30 then Some ([d], r)
          else if is_digit d then Some (takeWhile is_digit cs, dropWhile is_digit cs)
          else None)"

definition lex_digits1 :: "cu list \<Rightarrow> (cu list \<times> cu list) option" where
  "lex_digits1 cs =
     (if takeWhile is_digit cs = [] then None
      else Some (takeWhile is_digit cs, dropWhile is_digit cs))"

definition lex_fraction :: "cu list \<Rightarrow> (cu list \<times> cu list) option" where
  "lex_fraction cs =
     (case cs of
        [] \<Rightarrow> Some ([], cs)
      | c # r \<Rightarrow> if c = 0x2E then lex_digits1 r else Some ([], cs))"

definition lex_exponent :: "cu list \<Rightarrow> (int \<times> cu list) option" where
  "lex_exponent cs =
     (case cs of
        [] \<Rightarrow> Some (0, cs)
      | c # r \<Rightarrow>
          if c = 0x65 \<or> c = 0x45 then
            (case r of
               [] \<Rightarrow> None
             | s # r1 \<Rightarrow>
                 if s = 0x2D then
                   (case lex_digits1 r1 of None \<Rightarrow> None
                    | Some (ds, rest) \<Rightarrow> Some (- int (digits_value ds), rest))
                 else if s = 0x2B then
                   (case lex_digits1 r1 of None \<Rightarrow> None
                    | Some (ds, rest) \<Rightarrow> Some (int (digits_value ds), rest))
                 else
                   (case lex_digits1 r of None \<Rightarrow> None
                    | Some (ds, rest) \<Rightarrow> Some (int (digits_value ds), rest)))
          else Some (0, cs))"

definition pow10 :: "int \<Rightarrow> rat" where
  "pow10 e = (if e \<ge> 0 then 10 ^ nat e else 1 / 10 ^ nat (- e))"

definition lex_unsigned :: "cu list \<Rightarrow> (rat \<times> cu list) option" where
  "lex_unsigned cs =
     (case lex_int_part cs of None \<Rightarrow> None
      | Some (ip, r1) \<Rightarrow>
     (case lex_fraction r1 of None \<Rightarrow> None
      | Some (fp, r2) \<Rightarrow>
     (case lex_exponent r2 of None \<Rightarrow> None
      | Some (e, r3) \<Rightarrow>
          Some (of_nat (digits_value (ip @ fp)) * pow10 (e - int (length fp)), r3))))"

definition lex_number :: "cu list \<Rightarrow> (rat \<times> cu list) option" where
  "lex_number cs =
     (case cs of
        [] \<Rightarrow> None
      | c # r \<Rightarrow>
          if c = 0x2D then
            (case lex_unsigned r of None \<Rightarrow> None | Some (v, rest) \<Rightarrow> Some (- v, rest))
          else lex_unsigned cs)"

definition is_json_whitespace :: "cu \<Rightarrow> bool" where
  "is_json_whitespace c = (c = 0x20 \<or> c = 0x09 \<or> c = 0x0A \<or> c = 0x0D)"

text \<open>The tokens of a JSON text; \<open>None\<close> when some part of it is no token.\<close>

function tokenize :: "cu list \<Rightarrow> token list option" where
  "tokenize [] = Some []"
| "tokenize (c # cs) =
     (if is_json_whitespace c then tokenize cs
      else if c = 0x7B then map_option (Cons TLBrace) (tokenize cs)
      else if c = 0x7D then map_option (Cons TRBrace) (tokenize cs)
      else if c = 0x5B then map_option (Cons TLBracket) (tokenize cs)
      else if c = 0x5D then map_option (Cons TRBracket) (tokenize cs)
      else if c = 0x3A then map_option (Cons TColon) (tokenize cs)
      else if c = 0x2C then map_option (Cons TComma) (tokenize cs)
      else if c = 0x22 then
        (case lex_string cs of
           None \<Rightarrow> None
         | Some (s, rest) \<Rightarrow> map_option (Cons (TString s)) (tokenize rest))
      else if c = 0x2D \<or> is_digit c then
        (case lex_number (c # cs) of
           None \<Rightarrow> None
         | Some (v, rest) \<Rightarrow> map_option (Cons (TNumber v)) (tokenize rest))
      else if prefix (js ''true'') (c # cs) then
        map_option (Cons TTrue) (tokenize (drop 4 (c # cs)))
      else if prefix (js ''false'') (c # cs) then
        map_option (Cons TFalse) (tokenize (drop 5 (c # cs)))
      else if prefix (js ''null'') (c # cs) then
        map_option (Cons TNull) (tokenize (drop 4 (c # cs)))
      else None)"
  by pat_completeness auto
termination
proof -
  have str: "length rest < length cs" if "lex_string cs = Some (s, rest)" for cs s rest
    using that
  proof (induction "length cs" arbitrary: cs s rest rule: less_induct)
    case less
    note IH = less.hyps[rotated]
    show ?case
    proof (cases cs)
      case Nil
      with less.prems show ?thesis by simp
    next
      case (Cons c cs')
      with less.prems show ?thesis
        by (auto simp: cons_fst_def split: if_splits list.splits option.splits prod.splits
                 dest!: IH)
    qed
  qed
  have dig: "length rest < length cs" if "lex_digits1 cs = Some (ds, rest)" for cs ds rest
    using that
    by (cases cs)
       (auto simp: lex_digits1_def split: if_splits
             intro: le_imp_less_Suc length_dropWhile_le)
  have ip: "length rest < length cs" if "lex_int_part cs = Some (ds, rest)" for cs ds rest
    using that
    by (cases cs)
       (auto simp: lex_int_part_def split: if_splits
             intro: le_imp_less_Suc length_dropWhile_le)
  have fr: "length rest \<le> length cs" if "lex_fraction cs = Some (ds, rest)" for cs ds rest
    using that
    by (cases cs) (auto simp: lex_fraction_def split: if_splits dest!: dig)
  have ex: "length rest \<le> length cs" if "lex_exponent cs = Some (e, rest)" for cs e rest
    using that
    by (cases cs)
       (auto simp: lex_exponent_def split: if_splits list.splits option.splits dest!: dig)
  have un: "length rest < length cs" if "lex_unsigned cs = Some (v, rest)" for cs v rest
    using that
    by (auto simp: lex_unsigned_def split: option.splits dest!: ip fr ex)
  have num: "length rest < length cs" if "lex_number cs = Some (v, rest)" for cs v rest
    using that
    by (cases cs) (auto simp: lex_number_def split: if_splits option.splits dest!: un)
  show ?thesis
    by (relation "measure length") (auto dest!: str num)
qed

text \<open>
  The grammar of values over the tokens. A value, the elements of a non-empty array up to
  its \<open>]\<close>, and the members of a non-empty object up to its \<open>}\<close>; each returns what it
  read and the tokens that follow. The comparison of lengths after a comma always holds,
  a value being at least one token long; it is what the termination proof uses.
\<close>

function parse_value :: "token list \<Rightarrow> (json \<times> token list) option"
  and parse_elements :: "token list \<Rightarrow> (json list \<times> token list) option"
  and parse_members :: "token list \<Rightarrow> ((jsstring \<times> json) list \<times> token list) option"
where
  "parse_value ts =
     (case ts of
        [] \<Rightarrow> None
      | t # r \<Rightarrow>
          (case t of
             TNull \<Rightarrow> Some (JNull, r)
           | TTrue \<Rightarrow> Some (JBool True, r)
           | TFalse \<Rightarrow> Some (JBool False, r)
           | TNumber n \<Rightarrow> Some (JNumber n, r)
           | TString s \<Rightarrow> Some (JString s, r)
           | TLBracket \<Rightarrow>
               (if r \<noteq> [] \<and> hd r = TRBracket then Some (JArray [], tl r)
                else (case parse_elements r of
                        None \<Rightarrow> None
                      | Some (vs, rest) \<Rightarrow> Some (JArray vs, rest)))
           | TLBrace \<Rightarrow>
               (if r \<noteq> [] \<and> hd r = TRBrace then Some (JObject [], tl r)
                else (case parse_members r of
                        None \<Rightarrow> None
                      | Some (ms, rest) \<Rightarrow> Some (JObject ms, rest)))
           | _ \<Rightarrow> None))"
| "parse_elements ts =
     (case parse_value ts of
        None \<Rightarrow> None
      | Some (v, r) \<Rightarrow>
          (case r of
             [] \<Rightarrow> None
           | t # r1 \<Rightarrow>
               if t = TRBracket then Some ([v], r1)
               else if t = TComma \<and> length r1 < length ts then cons_fst v (parse_elements r1)
               else None))"
| "parse_members ts =
     (case ts of
        TString k # TColon # r \<Rightarrow>
          (case parse_value r of
             None \<Rightarrow> None
           | Some (v, r1) \<Rightarrow>
               (case r1 of
                  [] \<Rightarrow> None
                | t # r2 \<Rightarrow>
                    if t = TRBrace then Some ([(k, v)], r2)
                    else if t = TComma \<and> length r2 < length ts
                    then cons_fst (k, v) (parse_members r2)
                    else None))
      | _ \<Rightarrow> None)"
  by pat_completeness auto
termination
  by (relation "measure (\<lambda>x. case x of Inl ts \<Rightarrow> 2 * length ts
                                | Inr (Inl ts) \<Rightarrow> 2 * length ts + 1
                                | Inr (Inr ts) \<Rightarrow> 2 * length ts + 1)")
     auto

declare parse_value.simps [simp del] parse_elements.simps [simp del]
  parse_members.simps [simp del]

text \<open>\<open>JSON.parse\<close>: one value, and nothing after it.\<close>

definition JSON_parse :: "jsstring \<Rightarrow> error + json" where
  "JSON_parse s =
     (case tokenize s of
        None \<Rightarrow> Inl SyntaxError
      | Some ts \<Rightarrow>
          (case parse_value ts of
             Some (v, []) \<Rightarrow> Inr v
           | _ \<Rightarrow> Inl SyntaxError))"

subsection \<open>\<open>JSON.stringify\<close> of a string and of an integer\<close>

definition hex_code :: "nat \<Rightarrow> nat" where
  "hex_code d = (if d < 10 then 0x30 + d else 0x61 + (d - 10))"

definition hex_digit :: "nat \<Rightarrow> cu" where
  "hex_digit d = of_nat (hex_code d)"

definition unicode_escape :: "cu \<Rightarrow> jsstring" where
  "unicode_escape c =
     (let n = unat c in
        [0x5C, 0x75, hex_digit (n div 4096), hex_digit (n div 256 mod 16),
         hex_digit (n div 16 mod 16), hex_digit (n mod 16)])"

definition quote_unit :: "cu \<Rightarrow> jsstring" where
  "quote_unit c =
     (if c = 0x08 then [0x5C, 0x62]
      else if c = 0x09 then [0x5C, 0x74]
      else if c = 0x0A then [0x5C, 0x6E]
      else if c = 0x0C then [0x5C, 0x66]
      else if c = 0x0D then [0x5C, 0x72]
      else if c = 0x22 then [0x5C, 0x22]
      else if c = 0x5C then [0x5C, 0x5C]
      else if c < 0x20 then unicode_escape c
      else [c])"

definition is_high_surrogate :: "cu \<Rightarrow> bool" where
  "is_high_surrogate c = (0xD800 \<le> c \<and> c \<le> 0xDBFF)"

definition is_low_surrogate :: "cu \<Rightarrow> bool" where
  "is_low_surrogate c = (0xDC00 \<le> c \<and> c \<le> 0xDFFF)"

text \<open>
  A surrogate pair is written as it is, a surrogate without its partner as a
  \<open>\u\<close> escape, and any other code unit as \<open>quote_unit\<close> writes it.
\<close>

fun quote_units :: "jsstring \<Rightarrow> jsstring" where
  "quote_units [] = []"
| "quote_units [c] =
     (if is_high_surrogate c \<or> is_low_surrogate c then unicode_escape c else quote_unit c)"
| "quote_units (c # d # cs) =
     (if is_high_surrogate c \<and> is_low_surrogate d then c # d # quote_units cs
      else if is_high_surrogate c \<or> is_low_surrogate c
      then unicode_escape c @ quote_units (d # cs)
      else quote_unit c @ quote_units (d # cs))"

definition QuoteJSONString :: "jsstring \<Rightarrow> jsstring" where
  "QuoteJSONString s = 0x22 # quote_units s @ [0x22]"

definition digit_char :: "nat \<Rightarrow> cu" where
  "digit_char d = of_nat (0x30 + d)"

function show_nat :: "nat \<Rightarrow> jsstring" where
  "show_nat n =
     (if n < 10 then [digit_char n]
      else show_nat (n div 10) @ [digit_char (n mod 10)])"
  by pat_completeness auto
termination
  by (relation "measure id") auto

declare show_nat.simps [simp del]

text \<open>An integer in decimal, with a minus sign when it is negative.\<close>

definition number_to_string :: "int \<Rightarrow> jsstring" where
  "number_to_string i = (if i < 0 then 0x2D # show_nat (nat (- i)) else show_nat (nat i))"

section \<open>The cursor of the facet fetch\<close>

text \<open>
  \<open>JSON.stringify(payload)\<close> for the payload \<open>{ text, start }\<close>: the keys in the order
  in which the object literal lists them.
\<close>

definition JSON_stringify :: "FacetsCursor \<Rightarrow> jsstring" where
  "JSON_stringify payload =
     [0x7B] @ QuoteJSONString (js ''text'') @ [0x3A] @ QuoteJSONString (text payload)
     @ [0x2C] @ QuoteJSONString (js ''start'') @ [0x3A] @ number_to_string (start payload)
     @ [0x7D]"

text \<open>The value of a property of a parsed object: the last member with that key.\<close>

definition property :: "(jsstring \<times> json) list \<Rightarrow> jsstring \<Rightarrow> json option" where
  "property ms k = map_of (rev ms) k"

text \<open>
  What a run gives besides a result: a thrown error, or \<open>Untyped\<close>. \<open>decodeCursor\<close>
  returns the parsed value at the type \<open>FacetsCursor\<close> without a check, and its caller
  destructures it at once (\<open>const { text, start } = decodeCursor(request)\<close>); the model
  folds that destructuring into \<open>decodeCursor\<close>. The model follows a run only when the
  value has the declared type, an object with a string \<open>text\<close> and an integer
  \<open>start\<close>; destructuring \<open>null\<close> throws; for any other value the model stops with
  \<open>Untyped\<close> and states nothing about the run.
\<close>

datatype fault = Thrown error | Untyped

definition as_FacetsCursor :: "json \<Rightarrow> fault + FacetsCursor" where
  "as_FacetsCursor v =
     (case v of
        JNull \<Rightarrow> Inl (Thrown TypeError)
      | JObject ms \<Rightarrow>
          (case (property ms (js ''text''), property ms (js ''start'')) of
             (Some (JString t), Some (JNumber r)) \<Rightarrow>
               if r = of_int \<lfloor>r\<rfloor> then Inr \<lparr>start = \<lfloor>r\<rfloor>, text = t\<rparr> else Inl Untyped
           | _ \<Rightarrow> Inl Untyped)
      | _ \<Rightarrow> Inl Untyped)"

definition decodeCursor :: "request \<Rightarrow> fault + FacetsCursor" where
  "decodeCursor req =
     (case req of
        Continuation c its \<Rightarrow>
          (case atob c of
             Inl e \<Rightarrow> Inl (Thrown e)
           | Inr s \<Rightarrow>
               (case JSON_parse s of
                  Inl e \<Rightarrow> Inl (Thrown e)
                | Inr v \<Rightarrow> as_FacetsCursor v))
      | Initial t \<Rightarrow>
          Inr \<lparr>start = 0, text = (if truthy t then (case t of Some s \<Rightarrow> s | None \<Rightarrow> []) else [])\<rparr>)"

definition encodeCursor :: "entity list \<Rightarrow> int \<Rightarrow> FacetsCursor \<Rightarrow> error + jsstring option" where
  "encodeCursor entities lmt payload =
     (if int (length entities) > lmt then
        (case btoa (JSON_stringify payload) of
           Inl e \<Rightarrow> Inl e
         | Inr c \<Rightarrow> Inr (Some c))
      else Inr None)"

section \<open>The facet fetch\<close>

text \<open>
  The catalog client and the entity reference parser are outside this code. The fetch
  takes them as parameters: \<open>getEntityFacets\<close> answers a request or fails, and
  \<open>parseEntityRef\<close> gives kind, namespace and name of a reference or fails.
\<close>

record entity_filter =
  key :: jsstring
  "values" :: "jsstring list"

record facets_request =
  req_facets :: "jsstring list"
  req_filter :: "entity_filter list option"

record facet_value =
  "value" :: jsstring

record facets_response =
  facets :: "jsstring \<Rightarrow> facet_value list option"

record CompoundEntityRef =
  ref_kind :: jsstring
  ref_namespace :: "jsstring option"
  ref_name :: jsstring

type_synonym catalog_facets = "facets_request \<Rightarrow> error + facets_response"
type_synonym ref_parser = "jsstring \<Rightarrow> error + CompoundEntityRef"

definition facet :: jsstring where
  "facet = js ''relations.ownedBy''"

definition filterObj :: "jsstring option \<Rightarrow> entity_filter list option" where
  "filterObj selectedKind =
     (if truthy selectedKind then
        (case selectedKind of
           None \<Rightarrow> None
         | Some k \<Rightarrow>
             (let lower = toLocaleLowerCase k in
                if lower = js ''group'' \<or> lower = js ''user''
                then Some [\<lparr>key = js ''kind'', values = [k]\<rparr>]
                else None))
      else None)"

text \<open>The request sent to the facets endpoint.\<close>

definition facetsRequest :: "jsstring option \<Rightarrow> facets_request" where
  "facetsRequest selectedKind = \<lparr>req_facets = [facet], req_filter = filterObj selectedKind\<rparr>"

text \<open>\<open>rawList.map(ref => ...)\<close>: the first reference that does not parse throws.\<close>

fun map_refs :: "ref_parser \<Rightarrow> jsstring list \<Rightarrow> error + entity list" where
  "map_refs parseEntityRef [] = Inr []"
| "map_refs parseEntityRef (r # rs) =
     (case parseEntityRef r of
        Inl e \<Rightarrow> Inl e
      | Inr cref \<Rightarrow>
          (case map_refs parseEntityRef rs of
             Inl e \<Rightarrow> Inl e
           | Inr es \<Rightarrow>
               Inr (\<lparr>apiVersion = js ''backstage.io/v1beta1'', kind = ref_kind cref,
                     metadata = \<lparr>name = ref_name cref, namespace = ref_namespace cref\<rparr>\<rparr>
                    # es)))"

text \<open>The facet entities of a call: the network call, then the parsing of its values.\<close>

definition facetEntities ::
  "catalog_facets \<Rightarrow> ref_parser \<Rightarrow> jsstring option \<Rightarrow> error + entity list" where
  "facetEntities getEntityFacets parseEntityRef selectedKind =
     (case getEntityFacets (facetsRequest selectedKind) of
        Inl e \<Rightarrow> Inl e
      | Inr resp \<Rightarrow>
          (let rawList = (case facets resp facet of None \<Rightarrow> [] | Some vs \<Rightarrow> map value vs)
           in map_refs parseEntityRef rawList))"

text \<open>The body of the \<open>try\<close> block.\<close>

definition facetsTry ::
  "catalog_facets \<Rightarrow> ref_parser \<Rightarrow> jsstring option \<Rightarrow> request \<Rightarrow> fetch_options option
   \<Rightarrow> fault + response" where
  "facetsTry getEntityFacets parseEntityRef selectedKind req options =
     (case facetEntities getEntityFacets parseEntityRef selectedKind of
        Inl e \<Rightarrow> Inl (Thrown e)
      | Inr fs \<Rightarrow>
          (let lmt = limit_of options in
             case decodeCursor req of
               Inl f \<Rightarrow> Inl f
             | Inr c \<Rightarrow>
                 (let sorted = sortedItems (text c) fs;
                      end = start c + lmt
                  in case encodeCursor sorted end \<lparr>start = end, text = text c\<rparr> of
                       Inl e \<Rightarrow> Inl (Thrown e)
                     | Inr cur \<Rightarrow> Inr \<lparr>items = slice0 sorted end, cursor = cur\<rparr>)))"

text \<open>
  The fetch function of \<open>useFacetsEntities\<close>. \<open>Inr\<close> is a resolved promise,
  \<open>Inl (Thrown e)\<close> a rejected one.
\<close>

definition useFacetsEntities ::
  "bool \<Rightarrow> jsstring option \<Rightarrow> catalog_facets \<Rightarrow> ref_parser \<Rightarrow> request
   \<Rightarrow> fetch_options option \<Rightarrow> fault + response" where
  "useFacetsEntities enabled selectedKind getEntityFacets parseEntityRef req options =
     (if \<not> enabled \<or> \<not> truthy selectedKind then Inr \<lparr>items = [], cursor = None\<rparr>
      else (case facetsTry getEntityFacets parseEntityRef selectedKind req options of
              Inr ret \<Rightarrow> Inr ret
            | Inl (Thrown err) \<Rightarrow> Inr \<lparr>items = [], cursor = None\<rparr>
            | Inl Untyped \<Rightarrow> Inl Untyped))"

section \<open>The text query fetch\<close>

record full_text_filter =
  "term" :: jsstring
  term_fields :: "jsstring list"

record order_field =
  field :: jsstring
  order :: jsstring

record query_request =
  query_cursor :: "jsstring option"
  fullTextFilter :: "full_text_filter option"
  query_filter :: "(jsstring \<times> jsstring list) list option"
  orderFields :: "order_field list option"
  query_limit :: int

record page_info =
  nextCursor :: "jsstring option"

record query_response =
  query_items :: "entity list"
  pageInfo :: page_info

type_synonym catalog_query = "query_request \<Rightarrow> error + query_response"

definition useQueryEntities ::
  "catalog_query \<Rightarrow> request \<Rightarrow> fetch_options option \<Rightarrow> error + response" where
  "useQueryEntities queryEntities req options =
     (let lmt = limit_of options in
        case req of
          Continuation c its \<Rightarrow>
            (case queryEntities
                    \<lparr>query_cursor = Some c, fullTextFilter = None, query_filter = None,
                     orderFields = None, query_limit = lmt\<rparr> of
               Inl e \<Rightarrow> Inl e
             | Inr resp \<Rightarrow>
                 Inr \<lparr>items = its @ query_items resp, cursor = nextCursor (pageInfo resp)\<rparr>)
        | Initial t \<Rightarrow>
            (case queryEntities
                    \<lparr>query_cursor = None,
                     fullTextFilter =
                       Some \<lparr>term = (case t of Some s \<Rightarrow> s | None \<Rightarrow> []),
                             term_fields = [js ''metadata.name'', js ''kind'',
                                       js ''spec.profile.displayname'', js ''metadata.title'']\<rparr>,
                     query_filter = Some [(js ''kind'', [js ''User'', js ''Group''])],
                     orderFields = Some [\<lparr>field = js ''metadata.name'', order = js ''asc''\<rparr>],
                     query_limit = lmt\<rparr> of
               Inl e \<Rightarrow> Inl e
             | Inr resp \<Rightarrow>
                 Inr \<lparr>items = query_items resp, cursor = nextCursor (pageInfo resp)\<rparr>))"

section \<open>Auxiliary notions for the proofs\<close>

text \<open>A three-way comparison of two strings, as each level of the comparator makes it.\<close>

definition cmp3 :: "jsstring \<Rightarrow> jsstring \<Rightarrow> int" where
  "cmp3 x y = (if x < y then -1 else if x > y then 1 else 0)"

definition nskey :: "entity \<Rightarrow> jsstring" where
  "nskey e = (case namespace (metadata e) of None \<Rightarrow> [] | Some x \<Rightarrow> x)"

text \<open>An entity has a namespace when the field is present and not the empty string.\<close>

definition has_namespace :: "entity \<Rightarrow> bool" where
  "has_namespace e = truthy (namespace (metadata e))"

text \<open>An entity as the facet fetch builds it, from kind, namespace and name.\<close>

definition mk_entity :: "string \<Rightarrow> string option \<Rightarrow> string \<Rightarrow> entity" where
  "mk_entity k ns n =
     \<lparr>apiVersion = js ''backstage.io/v1beta1'', kind = js k,
      metadata = \<lparr>name = js n, namespace = map_option js ns\<rparr>\<rparr>"

text \<open>Three entities of kind \<open>user\<close>; the second has no namespace.\<close>

definition entA :: entity where
  "entA = mk_entity ''user'' (Some ''b'') ''1''"

definition entB :: entity where
  "entB = mk_entity ''user'' None ''2''"

definition entC :: entity where
  "entC = mk_entity ''user'' (Some ''a'') ''3''"

text \<open>The input after a number: nothing, or a code unit that cannot continue the number.\<close>

definition ends_number :: "cu list \<Rightarrow> bool" where
  "ends_number rest = (case rest of [] \<Rightarrow> True
     | c # _ \<Rightarrow> \<not> is_digit c \<and> c \<noteq> 0x2E \<and> c \<noteq> 0x65 \<and> c \<noteq> 0x45)"

text \<open>
  Stand-ins for the two collaborators, used in the examples: a catalog that owns three
  references, and a parser of references of the form \<open>kind:namespace/name\<close>.
\<close>

definition split_at :: "cu \<Rightarrow> jsstring \<Rightarrow> jsstring \<times> jsstring" where
  "split_at sep s = (takeWhile (\<lambda>c. c \<noteq> sep) s, drop 1 (dropWhile (\<lambda>c. c \<noteq> sep) s))"

definition sample_parseEntityRef :: ref_parser where
  "sample_parseEntityRef r =
     (case split_at 0x3A r of
        (k, rest) \<Rightarrow>
          (case split_at 0x2F rest of
             (ns, n) \<Rightarrow>
               if k = [] \<or> ns = [] \<or> n = [] then Inl (Failure r)
               else Inr \<lparr>ref_kind = k, ref_namespace = Some ns, ref_name = n\<rparr>))"

definition sample_refs :: "jsstring list" where
  "sample_refs = [js ''user:default/carol'', js ''group:default/team-a'', js ''user:default/alice'']"

definition sample_catalog :: catalog_facets where
  "sample_catalog req =
     Inr \<lparr>facets = (\<lambda>f. if f = facet then Some (map (\<lambda>r. \<lparr>value = r\<rparr>) sample_refs)
                          else None)\<rparr>"

definition sample_entities :: "entity list" where
  "sample_entities =
     [mk_entity ''user'' (Some ''default'') ''carol'',
      mk_entity ''group'' (Some ''default'') ''team-a'',
      mk_entity ''user'' (Some ''default'') ''alice'']"

definition sample_sorted :: "entity list" where
  "sample_sorted =
     [mk_entity ''group'' (Some ''default'') ''team-a'',
      mk_entity ''user'' (Some ''default'') ''alice'',
      mk_entity ''user'' (Some ''default'') ''carol'']"

definition failing_catalog :: catalog_facets where
  "failing_catalog req = Inl (Failure (js ''offline''))"

text \<open>A query endpoint that answers every request with one more entity and a next cursor.\<close>

definition sample_query :: catalog_query where
  "sample_query req =
     Inr \<lparr>query_items = [mk_entity ''user'' (Some ''default'') ''dave''],
          pageInfo = \<lparr>nextCursor = Some (js ''next'')\<rparr>\<rparr>"

definition failing_parser :: ref_parser where
  "failing_parser r = Inl (Failure r)"

text \<open>A catalog whose two owners have names outside Latin-1 (U+3042, U+3044, U+3046).\<close>

definition kana_catalog :: catalog_facets where
  "kana_catalog req =
     Inr \<lparr>facets = (\<lambda>f. if f = facet
                          then Some [\<lparr>value = js ''user:default/'' @ [0x3042, 0x3044]\<rparr>,
                                     \<lparr>value = js ''user:default/'' @ [0x3042, 0x3046]\<rparr>]
                          else None)\<rparr>"

section \<open>Properties of the filter\<close>

lemma includes_iff: "includes_js s t \<longleftrightarrow> (\<exists>pre post. s = pre @ t @ post)"
proof (induction s)
  case Nil
  then show ?case by auto
next
  case (Cons c s)
  have "(\<exists>pre post. c # s = pre @ t @ post) \<longleftrightarrow>
        prefix t (c # s) \<or> (\<exists>pre post. s = pre @ t @ post)"
  proof
    assume "\<exists>pre post. c # s = pre @ t @ post"
    then obtain pre post where eq: "c # s = pre @ t @ post" by blast
    show "prefix t (c # s) \<or> (\<exists>pre post. s = pre @ t @ post)"
    proof (cases pre)
      case Nil
      with eq show ?thesis by (auto simp: prefix_def)
    next
      case (Cons p pre')
      with eq have "s = pre' @ t @ post" by simp
      then show ?thesis by blast
    qed
  next
    assume "prefix t (c # s) \<or> (\<exists>pre post. s = pre @ t @ post)"
    then show "\<exists>pre post. c # s = pre @ t @ post"
    proof
      assume "prefix t (c # s)"
      then obtain post where "c # s = t @ post" by (auto simp: prefix_def)
      then have "c # s = [] @ t @ post" by simp
      then show ?thesis by blast
    next
      assume "\<exists>pre post. s = pre @ t @ post"
      then obtain pre post where "s = pre @ t @ post" by blast
      then have "c # s = (c # pre) @ t @ post" by simp
      then show ?thesis by blast
    qed
  qed
  with Cons.IH show ?case by simp
qed

lemma includes_empty: "includes_js s []"
  by (induction s) auto

text \<open>
  C8. For every search text and entity, the local text filter keeps the entity if and
  only if the trimmed text is a (case-sensitive, code unit by code unit) substring of the
  entity's kind, of its namespace when it has one, or of its name; in particular the empty
  text keeps every entity.
\<close>

theorem filterEntity_substring:
  "(filterEntity t e \<longleftrightarrow>
      (\<exists>pre post. kind e = pre @ trim t @ post)
      \<or> (\<exists>ns pre post. namespace (metadata e) = Some ns \<and> ns = pre @ trim t @ post)
      \<or> (\<exists>pre post. name (metadata e) = pre @ trim t @ post))
   \<and> filterEntity [] e"
proof
  show "filterEntity t e \<longleftrightarrow>
      (\<exists>pre post. kind e = pre @ trim t @ post)
      \<or> (\<exists>ns pre post. namespace (metadata e) = Some ns \<and> ns = pre @ trim t @ post)
      \<or> (\<exists>pre post. name (metadata e) = pre @ trim t @ post)"
    unfolding filterEntity_def Let_def includes_iff
    by (cases "namespace (metadata e)") auto
  have "trim [] = []"
    by (simp add: trim_def)
  then show "filterEntity [] e"
    by (simp add: filterEntity_def includes_empty)
qed

theorem filterEntity_substring_witness:
  "filterEntity (js '' us '')
     \<lparr>apiVersion = js ''v'', kind = js ''user'',
      metadata = \<lparr>name = js ''a'', namespace = None\<rparr>\<rparr>"
proof -
  have "trim (js '' us '') = js ''us''"
    by (simp add: trim_def js_def cu_def is_js_space_def)
  then have "js ''user'' = [] @ trim (js '' us '') @ js ''er''"
    by (simp add: js_def)
  then have "\<exists>pre post. js ''user'' = pre @ trim (js '' us '') @ post"
    by blast
  then show ?thesis
    using filterEntity_substring
      [of "js '' us ''" "\<lparr>apiVersion = js ''v'', kind = js ''user'',
                          metadata = \<lparr>name = js ''a'', namespace = None\<rparr>\<rparr>"]
    by simp
qed

section \<open>Properties of the comparator\<close>

lemma cmp_uniform:
  assumes "has_namespace a = has_namespace b"
  shows "compareEntities a b =
     (if kind a \<noteq> kind b then cmp3 (kind a) (kind b)
      else if has_namespace a \<and> nskey a \<noteq> nskey b then cmp3 (nskey a) (nskey b)
      else cmp3 (name (metadata a)) (name (metadata b)))"
  using assms
  by (auto simp: compareEntities_def truthy_def cmp3_def nskey_def has_namespace_def
           split: option.splits)

lemma cmp3_le: "cmp3 x y \<le> 0 \<longleftrightarrow> x \<le> y"
  by (auto simp: cmp3_def)

lemma cmp3_less: "cmp3 x y < 0 \<longleftrightarrow> x < y"
  by (auto simp: cmp3_def)

lemma cmp_values:
  "compareEntities a b = -1 \<or> compareEntities a b = 0 \<or> compareEntities a b = 1"
  by (auto simp: compareEntities_def split: option.splits)

lemma cmp_swap: "compareEntities b a = - compareEntities a b"
  by (auto simp: compareEntities_def truthy_def split: option.splits)

lemma cmp_trans_le:
  assumes ab: "has_namespace a = has_namespace b"
      and bc: "has_namespace b = has_namespace c"
      and "compareEntities a b \<le> 0" and "compareEntities b c \<le> 0"
  shows "compareEntities a c \<le> 0"
proof -
  from ab bc have ac: "has_namespace a = has_namespace c" by simp
  show ?thesis
    using assms unfolding cmp_uniform[OF ab] cmp_uniform[OF bc] cmp_uniform[OF ac]
    by (auto simp: cmp3_le split: if_splits)
qed

lemma cmp_trans_less:
  assumes ab: "has_namespace a = has_namespace b"
      and bc: "has_namespace b = has_namespace c"
      and "compareEntities a b < 0" and "compareEntities b c < 0"
  shows "compareEntities a c < 0"
proof -
  from ab bc have ac: "has_namespace a = has_namespace c" by simp
  show ?thesis
    using assms unfolding cmp_uniform[OF ab] cmp_uniform[OF bc] cmp_uniform[OF ac]
    by (auto simp: cmp3_less split: if_splits)
qed

lemma cmp_zero_iff:
  assumes "has_namespace a" "has_namespace b"
  shows "compareEntities a b = 0 \<longleftrightarrow>
           kind a = kind b \<and> namespace (metadata a) = namespace (metadata b)
           \<and> name (metadata a) = name (metadata b)"
  using assms
  by (auto simp: compareEntities_def truthy_def has_namespace_def split: option.splits)

text \<open>
  C1 as stated fails. Three entities of the same kind, of which the middle one has no
  namespace: the first sorts before the second and the second before the third by name
  (the namespace is skipped, one side having none), but the first sorts after the third
  by namespace. The relation is not transitive.
\<close>

theorem compareEntities_not_transitive:
  "compareEntities entA entB < 0 \<and> compareEntities entB entC < 0
   \<and> \<not> compareEntities entA entC < 0"
  by (simp add: compareEntities_def entA_def entB_def entC_def mk_entity_def truthy_def
        js_def cu_def)

text \<open>
  C1, amended. For any two entities exactly one of less-than, equal, greater-than holds
  (the comparator returns \<open>-1\<close>, \<open>0\<close> or \<open>1\<close>, and swapping the arguments negates the
  result). On entities that all have a namespace, or that all have none, the relation is
  transitive, so it is a total preorder there; and between two entities that have a
  namespace the comparator returns \<open>0\<close> exactly when kind, namespace and name agree.
\<close>

theorem compareEntities_total_order:
  "(compareEntities a b = -1 \<or> compareEntities a b = 0 \<or> compareEntities a b = 1)
   \<and> compareEntities b a = - compareEntities a b
   \<and> (has_namespace a = has_namespace b \<and> has_namespace b = has_namespace c \<longrightarrow>
        (compareEntities a b < 0 \<and> compareEntities b c < 0 \<longrightarrow> compareEntities a c < 0)
        \<and> (compareEntities a b \<le> 0 \<and> compareEntities b c \<le> 0 \<longrightarrow> compareEntities a c \<le> 0))
   \<and> (has_namespace a \<and> has_namespace b \<longrightarrow>
        (compareEntities a b = 0 \<longleftrightarrow>
           kind a = kind b \<and> namespace (metadata a) = namespace (metadata b)
           \<and> name (metadata a) = name (metadata b)))"
  using cmp_values[of a b] cmp_swap[of b a] cmp_trans_le[of a b c] cmp_trans_less[of a b c]
    cmp_zero_iff[of a b]
  by blast

theorem compareEntities_total_order_witness:
  "has_namespace (mk_entity ''group'' (Some ''default'') ''b'')
   \<and> has_namespace (mk_entity ''user'' (Some ''a'') ''z'')
   \<and> has_namespace (mk_entity ''user'' (Some ''b'') ''a'')
   \<and> compareEntities (mk_entity ''group'' (Some ''default'') ''b'')
        (mk_entity ''user'' (Some ''a'') ''z'') < 0
   \<and> compareEntities (mk_entity ''user'' (Some ''a'') ''z'')
        (mk_entity ''user'' (Some ''b'') ''a'') < 0
   \<and> compareEntities (mk_entity ''group'' (Some ''default'') ''b'')
        (mk_entity ''user'' (Some ''b'') ''a'') < 0
   \<and> compareEntities (mk_entity ''group'' (Some ''default'') ''b'')
        (mk_entity ''user'' (Some ''b'') ''a'') \<le> 0
   \<and> compareEntities (mk_entity ''user'' (Some ''a'') ''z'')
        (mk_entity ''group'' (Some ''default'') ''b'') = 1
   \<and> compareEntities (mk_entity ''user'' (Some ''a'') ''z'')
        (mk_entity ''user'' (Some ''a'') ''z'') = 0"
proof -
  let ?a = "mk_entity ''group'' (Some ''default'') ''b''"
  let ?b = "mk_entity ''user'' (Some ''a'') ''z''"
  let ?c = "mk_entity ''user'' (Some ''b'') ''a''"
  have h: "has_namespace ?a" "has_namespace ?b" "has_namespace ?c"
    by (simp_all add: has_namespace_def mk_entity_def truthy_def js_def)
  have c: "compareEntities ?a ?b < 0" "compareEntities ?b ?c < 0"
    by (simp_all add: compareEntities_def mk_entity_def truthy_def js_def cu_def)
  then have le: "compareEntities ?a ?b \<le> 0" "compareEntities ?b ?c \<le> 0"
    by simp_all
  have "compareEntities ?a ?c < 0" "compareEntities ?a ?c \<le> 0"
    using h c le compareEntities_total_order[of ?a ?b ?c] by blast+
  moreover have "compareEntities ?b ?a = 1"
    using c(1) compareEntities_total_order[of ?a ?b ?c] by auto
  moreover have "compareEntities ?b ?b = 0"
    using h(2) compareEntities_total_order[of ?b ?b ?c] by blast
  ultimately show ?thesis
    using h c by blast
qed

section \<open>The codec: decoding undoes encoding\<close>

subsection \<open>Base64\<close>

lemma unat_of_nat16: "n < 65536 \<Longrightarrow> unat (of_nat n :: cu) = n"
  by (simp add: unat_of_nat take_bit_nat_eq_self)

lemma b64_code_bounds: "0x2B \<le> b64_code i \<and> b64_code i \<le> 0x7A \<and> b64_code i \<noteq> 0x3D"
  unfolding b64_code_def by auto

lemma unat_b64_char: "unat (b64_char i) = b64_code i"
  unfolding b64_char_def using b64_code_bounds[of i] by (intro unat_of_nat16) simp

lemma b64_index_char: "i < 64 \<Longrightarrow> b64_index (b64_char i) = Some i"
  unfolding b64_index_def Let_def unat_b64_char b64_code_def
  by auto

lemma b64_char_not_ws: "\<not> is_ascii_whitespace (b64_char i)"
proof
  assume "is_ascii_whitespace (b64_char i)"
  then have "unat (b64_char i) \<le> 0x20"
    by (auto simp: is_ascii_whitespace_def)
  then show False
    using b64_code_bounds[of i] by (simp add: unat_b64_char)
qed

lemma b64_char_not_pad: "b64_char i \<noteq> 0x3D"
proof
  assume "b64_char i = 0x3D"
  then have "unat (b64_char i) = 0x3D" by simp
  then show False
    using b64_code_bounds[of i] by (simp add: unat_b64_char)
qed

lemma b64_sextets_bound: "\<forall>b\<in>set bs. b < 256 \<Longrightarrow> \<forall>x\<in>set (b64_sextets bs). x < 64"
  by (induction bs rule: b64_sextets.induct) (auto simp: less_mult_imp_div_less)

lemma sextet_div:
  fixes x y :: nat
  assumes "y < 16"
  shows "(x * 16 + y) div 16 = x" and "(x * 16 + y) mod 16 = y"
  using assms by simp_all

lemma sextet_div4:
  fixes x y :: nat
  assumes "y < 4"
  shows "(x * 4 + y) div 4 = x" and "(x * 4 + y) mod 4 = y"
  using assms by simp_all

lemma byte_parts:
  fixes b :: nat
  assumes "b < 256"
  shows "b div 16 < 16" and "b div 64 < 4"
  using assms by (simp_all add: less_mult_imp_div_less)

lemma triple_roundtrip:
  fixes a b c :: nat
  assumes "b < 256" "c < 256"
  shows "a div 4 * 4 + (a mod 4 * 16 + b div 16) div 16 = a"
    and "(a mod 4 * 16 + b div 16) mod 16 * 16 + (b mod 16 * 4 + c div 64) div 4 = b"
    and "(b mod 16 * 4 + c div 64) mod 4 * 64 + c mod 64 = c"
proof -
  note p = byte_parts[OF assms(1)] byte_parts[OF assms(2)]
  show "a div 4 * 4 + (a mod 4 * 16 + b div 16) div 16 = a"
    by (simp add: sextet_div[OF p(1)])
  have "b div 16 mod 16 = b div 16" using p(1) by simp
  then show "(a mod 4 * 16 + b div 16) mod 16 * 16 + (b mod 16 * 4 + c div 64) div 4 = b"
    by (simp add: sextet_div4[OF p(4)])
  have "c div 64 mod 4 = c div 64" using p(4) by simp
  moreover have "(b mod 16 * 4 + c div 64) mod 4 = c div 64 mod 4"
    by (metis mod_mult_self3)
  ultimately show "(b mod 16 * 4 + c div 64) mod 4 * 64 + c mod 64 = c"
    by simp
qed

lemma b64_bytes_sextets: "\<forall>b\<in>set bs. b < 256 \<Longrightarrow> b64_bytes (b64_sextets bs) = bs"
proof (induction bs rule: b64_sextets.induct)
  case (1 a b c bs)
  then have bc: "b < 256" "c < 256" and IH: "b64_bytes (b64_sextets bs) = bs" by simp_all
  show ?case
    using triple_roundtrip[OF bc] IH by simp
next
  case (2 a b)
  then have b: "b < 256" by simp
  have z: "(0::nat) < 256" by simp
  show ?case
    using triple_roundtrip(1,2)[OF b z] by simp
next
  case (3 a)
  have z: "(0::nat) < 256" by simp
  show ?case
    using triple_roundtrip(1)[OF z z] by simp
next
  case 4
  then show ?case by simp
qed

lemma b64_length_mod: "(length (b64_sextets bs) + b64_padding bs) mod 4 = 0"
  by (induction bs rule: b64_sextets.induct) auto

lemma b64_sextets_mod: "length (b64_sextets bs) mod 4 \<noteq> 1"
  by (induction bs rule: b64_sextets.induct) auto

lemma b64_padding_cases: "b64_padding bs = 0 \<or> b64_padding bs = 1 \<or> b64_padding bs = 2"
  by (induction bs rule: b64_padding.induct) auto

lemma remove_padding_encoded:
  assumes "0x3D \<notin> set xs" and "k = 0 \<or> k = 1 \<or> k = 2" and "(length xs + k) mod 4 = 0"
  shows "remove_padding (xs @ replicate k 0x3D) = xs"
proof -
  have no_suffix: "\<not> suffix [0x3D] xs" "\<not> suffix [0x3D, 0x3D] xs"
    using assms(1) by (auto simp: suffix_def)
  from assms(2) consider "k = 0" | "k = 1" | "k = 2" by blast
  then show ?thesis
  proof cases
    case 1
    then show ?thesis using no_suffix by (simp add: remove_padding_def)
  next
    case 2
    have "\<not> suffix [0x3D, 0x3D] (xs @ [0x3D])"
      using assms(1) by (auto simp: suffix_def append_eq_append_conv2 Cons_eq_append_conv)
    then show ?thesis using 2 assms(3) by (simp add: remove_padding_def)
  next
    case 3
    have "suffix [0x3D, 0x3D] (xs @ [0x3D, 0x3D])"
      by (simp add: suffix_def)
    moreover have "replicate k (0x3D::cu) = [0x3D, 0x3D]"
      using 3 by (simp add: numeral_2_eq_2)
    ultimately show ?thesis using assms(3) 3 by (simp add: remove_padding_def)
  qed
qed

lemma those_map_index: "\<forall>x\<in>set xs. x < 64 \<Longrightarrow> those (map b64_index (map b64_char xs)) = Some xs"
  by (induction xs) (simp_all add: b64_index_char)

lemma atob_btoa:
  assumes "btoa s = Inr c"
  shows "atob c = Inr s"
proof -
  let ?bs = "map unat s"
  let ?xs = "map b64_char (b64_sextets ?bs)"
  from assms have small: "\<forall>x\<in>set s. x \<le> 0xFF"
    and c: "c = ?xs @ replicate (b64_padding ?bs) 0x3D"
    by (auto simp: btoa_def list_ex_iff not_less split: if_splits)
  have bytes: "\<forall>b\<in>set ?bs. b < 256"
    using small by (auto simp: word_le_nat_alt)
  have nows: "filter (\<lambda>c. \<not> is_ascii_whitespace c) c = c"
  proof -
    have "\<not> is_ascii_whitespace (0x3D::cu)"
      by (simp add: is_ascii_whitespace_def)
    then show ?thesis
      unfolding c by (auto simp: b64_char_not_ws filter_id_conv)
  qed
  have nopad: "0x3D \<notin> set ?xs"
    using b64_char_not_pad by auto
  have "remove_padding c = ?xs"
    unfolding c using nopad b64_padding_cases[of ?bs] b64_length_mod[of ?bs]
    by (intro remove_padding_encoded) simp_all
  moreover have "length ?xs mod 4 \<noteq> 1"
    using b64_sextets_mod[of ?bs] by simp
  moreover have "those (map b64_index ?xs) = Some (b64_sextets ?bs)"
    using b64_sextets_bound[OF bytes] by (rule those_map_index)
  moreover have "map of_nat (b64_bytes (b64_sextets ?bs)) = s"
    using b64_bytes_sextets[OF bytes] by (simp add: map_idI)
  ultimately show ?thesis
    by (simp add: atob_def nows)
qed

subsection \<open>Strings and numbers of JSON\<close>

lemma hex_code_bounds: "d < 16 \<Longrightarrow> hex_code d < 65536"
  by (simp add: hex_code_def)

lemma hex_value_digit: "d < 16 \<Longrightarrow> hex_value (hex_digit d) = Some d"
  unfolding hex_value_def hex_digit_def Let_def
  by (simp add: unat_of_nat16[OF hex_code_bounds]) (auto simp: hex_code_def)

lemma hex_reassemble:
  fixes n :: nat
  shows "((n div 4096 * 16 + n div 256 mod 16) * 16 + n div 16 mod 16) * 16 + n mod 16 = n"
proof -
  have "n div (256 * 16) = n div 256 div 16"
    by (rule div_mult2_eq)
  then have a: "n div 4096 = n div 256 div 16"
    by simp
  have "n div (16 * 16) = n div 16 div 16"
    by (rule div_mult2_eq)
  then have b: "n div 256 = n div 16 div 16"
    by simp
  have "n div 4096 * 16 + n div 256 mod 16 = n div 256"
    unfolding a by simp
  moreover have "n div 256 * 16 + n div 16 mod 16 = n div 16"
    unfolding b by simp
  ultimately show ?thesis
    by simp
qed

lemma hex4_digits:
  "hex4 (unat c div 4096) (unat c div 256 mod 16) (unat c div 16 mod 16) (unat c mod 16) = c"
  unfolding hex4_def hex_reassemble by simp

lemma cons_fst_simps [simp]:
  "cons_fst x None = None"
  "cons_fst x (Some (xs, rest)) = Some (x # xs, rest)"
  by (simp_all add: cons_fst_def)

lemma lex_unicode_escape:
  "lex_string (unicode_escape c @ tail) = cons_fst c (lex_string tail)"
proof -
  have n: "unat c < 65536"
    using unsigned_less[of c, where ?'a = nat] by simp
  then have d: "unat c div 4096 < 16" "unat c div 256 mod 16 < 16"
     "unat c div 16 mod 16 < 16" "unat c mod 16 < 16"
    by (simp_all add: less_mult_imp_div_less)
  show ?thesis
    by (simp add: unicode_escape_def Let_def hex_value_digit[OF d(1)] hex_value_digit[OF d(2)]
        hex_value_digit[OF d(3)] hex_value_digit[OF d(4)] hex4_digits)
qed

lemma lex_quote_unit:
  "lex_string (quote_unit c @ tail) = cons_fst c (lex_string tail)"
proof (cases "c < 0x20 \<and> c \<notin> {0x08, 0x09, 0x0A, 0x0C, 0x0D}")
  case True
  then have "quote_unit c = unicode_escape c"
    by (auto simp: quote_unit_def)
  then show ?thesis
    by (simp add: lex_unicode_escape)
next
  case False
  then show ?thesis
    by (auto simp: quote_unit_def unescape_def not_less)
qed

lemma lex_surrogate_literal:
  assumes "is_high_surrogate c \<or> is_low_surrogate c"
  shows "lex_string (c # tail) = cons_fst c (lex_string tail)"
proof -
  from assms have "0xD800 \<le> c"
    by (auto simp: is_high_surrogate_def is_low_surrogate_def word_le_nat_alt)
  then have "c \<noteq> 0x22" "c \<noteq> 0x5C" "\<not> c < 0x20"
    by (auto simp: word_le_nat_alt word_less_nat_alt)
  then show ?thesis by simp
qed

lemma lex_quote_units:
  "lex_string (quote_units s @ 0x22 # rest) = Some (s, rest)"
proof (induction s rule: quote_units.induct)
  case 1
  then show ?case by simp
next
  case (2 c)
  have "lex_string (0x22 # rest) = Some ([], rest)" by simp
  then show ?case
    by (simp add: lex_unicode_escape lex_quote_unit del: lex_string.simps)
next
  case (3 c d cs)
  show ?case
  proof (cases "is_high_surrogate c \<and> is_low_surrogate d")
    case True
    then have "lex_string (c # d # quote_units cs @ 0x22 # rest)
               = cons_fst c (cons_fst d (lex_string (quote_units cs @ 0x22 # rest)))"
      by (simp add: lex_surrogate_literal del: lex_string.simps)
    with True 3(1) show ?thesis
      by (simp del: lex_string.simps)
  next
    case False
    note nopair = this
    show ?thesis
    proof (cases "is_high_surrogate c \<or> is_low_surrogate c")
      case True
      with nopair 3(2) show ?thesis
        by (auto simp add: lex_unicode_escape simp del: lex_string.simps)
    next
      case False
      with nopair 3(3) show ?thesis
        by (auto simp add: lex_quote_unit simp del: lex_string.simps)
    qed
  qed
qed



lemma unat_digit: "d < 10 \<Longrightarrow> unat (digit_char d) = 0x30 + d"
  unfolding digit_char_def by (rule unat_of_nat16) simp

lemma is_digit_digit: "d < 10 \<Longrightarrow> is_digit (digit_char d)"
  unfolding is_digit_def by (simp add: unat_digit)

lemma show_nat_digits: "\<forall>c\<in>set (show_nat n). is_digit c"
proof (induction n rule: show_nat.induct)
  case (1 n)
  show ?case
  proof (cases "n < 10")
    case True
    then show ?thesis
      by (subst show_nat.simps) (simp add: is_digit_digit)
  next
    case False
    have "n mod 10 < 10" by simp
    with False 1 show ?thesis
      by (subst show_nat.simps) (auto simp: is_digit_digit)
  qed
qed

lemma digits_value_snoc:
  "digits_value (ds @ [d]) = 10 * digits_value ds + (unat d - 0x30)"
  by (simp add: digits_value_def)

lemma digits_value_show_nat: "digits_value (show_nat n) = n"
proof (induction n rule: show_nat.induct)
  case (1 n)
  show ?case
  proof (cases "n < 10")
    case True
    then show ?thesis
      by (subst show_nat.simps) (simp add: digits_value_def unat_digit)
  next
    case False
    have m: "n mod 10 < 10" by simp
    from False 1 have "digits_value (show_nat (n div 10)) = n div 10" by simp
    with False show ?thesis
      by (subst show_nat.simps) (simp add: digits_value_snoc unat_digit[OF m])
  qed
qed

lemma show_nat_nonempty: "show_nat n \<noteq> []"
  by (subst show_nat.simps) simp

lemma show_nat_zero: "show_nat 0 = [0x30]"
  by (subst show_nat.simps) (simp add: digit_char_def)

lemma show_nat_hd: "0 < n \<Longrightarrow> hd (show_nat n) \<noteq> 0x30"
proof (induction n rule: show_nat.induct)
  case (1 n)
  show ?case
  proof (cases "n < 10")
    case True
    with 1(2) have "unat (digit_char n) \<noteq> 0x30"
      by (simp add: unat_digit)
    then have "digit_char n \<noteq> 0x30"
      by auto
    with True show ?thesis
      by (subst show_nat.simps) simp
  next
    case False
    then have "0 < n div 10" by simp
    with False 1 have "hd (show_nat (n div 10)) \<noteq> 0x30" by simp
    with False show ?thesis
      by (subst show_nat.simps) (simp add: show_nat_nonempty)
  qed
qed

lemma takeWhile_digits:
  assumes "ends_number rest"
  shows "takeWhile is_digit (show_nat n @ rest) = show_nat n"
    and "dropWhile is_digit (show_nat n @ rest) = rest"
proof -
  have r: "takeWhile is_digit rest = []" "dropWhile is_digit rest = rest"
    using assms by (cases rest; simp add: ends_number_def)+
  show "takeWhile is_digit (show_nat n @ rest) = show_nat n"
    using show_nat_digits[of n] r by (simp add: takeWhile_append2)
  show "dropWhile is_digit (show_nat n @ rest) = rest"
    using show_nat_digits[of n] r by (simp add: dropWhile_append2)
qed

lemma lex_int_part_show_nat:
  assumes "ends_number rest"
  shows "lex_int_part (show_nat n @ rest) = Some (show_nat n, rest)"
proof (cases "n = 0")
  case True
  then show ?thesis
    by (simp add: show_nat_zero lex_int_part_def)
next
  case False
  obtain d ds where ds: "show_nat n = d # ds"
    using show_nat_nonempty[of n] by (cases "show_nat n") auto
  have "d \<noteq> 0x30"
    using show_nat_hd[of n] False ds by simp
  moreover have "is_digit d"
    using show_nat_digits[of n] ds by simp
  ultimately show ?thesis
    using takeWhile_digits[OF assms, of n] ds
    by (simp add: lex_int_part_def)
qed

lemma lex_unsigned_show_nat:
  assumes "ends_number rest"
  shows "lex_unsigned (show_nat n @ rest) = Some (of_nat n, rest)"
proof -
  have "lex_fraction rest = Some ([], rest)" "lex_exponent rest = Some (0, rest)"
    using assms by (cases rest; simp add: ends_number_def lex_fraction_def lex_exponent_def)+
  then show ?thesis
    by (simp add: lex_unsigned_def lex_int_part_show_nat[OF assms] digits_value_show_nat pow10_def)
qed

lemma lex_number_to_string:
  assumes "ends_number rest"
  shows "lex_number (number_to_string i @ rest) = Some (of_int i, rest)"
proof (cases "i < 0")
  case True
  then have "of_int i = - (of_nat (nat (- i)) :: rat)"
    by simp
  with True show ?thesis
    by (simp add: number_to_string_def lex_number_def lex_unsigned_show_nat[OF assms])
next
  case False
  obtain d ds where ds: "show_nat (nat i) = d # ds"
    using show_nat_nonempty[of "nat i"] by (cases "show_nat (nat i)") auto
  have "is_digit d"
    using show_nat_digits[of "nat i"] ds by simp
  then have "d \<noteq> 0x2D"
    by (auto simp: is_digit_def)
  have "lex_number (show_nat (nat i) @ rest) = lex_unsigned (show_nat (nat i) @ rest)"
    using ds \<open>d \<noteq> 0x2D\<close> by (simp add: lex_number_def)
  with False show ?thesis
    by (simp add: number_to_string_def lex_unsigned_show_nat[OF assms])
qed

subsection \<open>The grammar: a value is at least one token long\<close>

text \<open>
  What \<open>parse_value\<close> leaves is shorter than what it was given. So the comparison of
  lengths that \<open>parse_elements\<close> and \<open>parse_members\<close> make after a comma never
  fails: both satisfy the equations of the grammar without it.
\<close>

lemma parse_shorter:
  "(\<forall>v r. parse_value ts = Some (v, r) \<longrightarrow> length r < length ts)"
  "(\<forall>vs r. parse_elements ts1 = Some (vs, r) \<longrightarrow> length r < length ts1)"
  "(\<forall>ms r. parse_members ts2 = Some (ms, r) \<longrightarrow> length r < length ts2)"
proof (induction ts and ts1 and ts2 rule: parse_value_parse_elements_parse_members.induct)
  case (1 ts)
  show ?case
  proof (intro allI impI)
    fix v r
    assume a: "parse_value ts = Some (v, r)"
    show "length r < length ts"
    proof (cases ts)
      case Nil
      with a show ?thesis by (simp add: parse_value.simps)
    next
      case (Cons t rest)
      show ?thesis
      proof (cases t)
        case TLBracket
        show ?thesis
        proof (cases "rest \<noteq> [] \<and> hd rest = TRBracket")
          case True
          with a Cons TLBracket show ?thesis
            by (cases rest) (auto simp: parse_value.simps)
        next
          case False
          with a Cons TLBracket 1(2)[OF Cons TLBracket False] show ?thesis
            by (auto simp: parse_value.simps split: option.splits) 
        qed
      next
        case TLBrace
        show ?thesis
        proof (cases "rest \<noteq> [] \<and> hd rest = TRBrace")
          case True
          with a Cons TLBrace show ?thesis
            by (cases rest) (auto simp: parse_value.simps)
        next
          case False
          with a Cons TLBrace 1(1)[OF Cons TLBrace False] show ?thesis
            by (auto simp: parse_value.simps split: option.splits) 
        qed
      qed (use a Cons in \<open>auto simp: parse_value.simps\<close>)
    qed
  qed
next
  case (2 ts)
  show ?case
  proof (intro allI impI)
    fix vs r
    assume a: "parse_elements ts = Some (vs, r)"
    then obtain v r0 where pv: "parse_value ts = Some (v, r0)"
      by (subst (asm) parse_elements.simps) (auto split: option.splits)
    with 2(1) have l0: "length r0 < length ts" by blast
    show "length r < length ts"
    proof (cases r0)
      case Nil
      with a pv show ?thesis
        by (subst (asm) parse_elements.simps) simp
    next
      case (Cons t r1)
      show ?thesis
      proof (cases "t = TRBracket")
        case True
        with a pv Cons l0 show ?thesis
          by (subst (asm) parse_elements.simps) auto
      next
        case False
        with a pv Cons have c: "t = TComma \<and> length r1 < length ts"
          and e: "cons_fst v (parse_elements r1) = Some (vs, r)"
          by (subst (asm) parse_elements.simps, auto split: if_splits)+
        from e obtain vs' where "parse_elements r1 = Some (vs', r)"
          by (auto simp: cons_fst_def split: option.splits)
        with 2(2)[OF pv refl Cons False c] have "length r < length r1"
          by blast
        with c show ?thesis by simp
      qed
    qed
  qed
next
  case (3 ts)
  show ?case
  proof (intro allI impI)
    fix ms r
    assume a: "parse_members ts = Some (ms, r)"
    then obtain k rest where ts: "ts = TString k # TColon # rest"
      by (subst (asm) parse_members.simps) (auto split: list.splits token.splits)
    with a obtain v r0 where pv: "parse_value rest = Some (v, r0)"
      by (subst (asm) parse_members.simps) (auto split: option.splits)
    with 3(1)[OF ts refl refl refl] have l0: "length r0 < length rest" 
      by blast
    show "length r < length ts"
    proof (cases r0)
      case Nil
      with a pv ts show ?thesis
        by (subst (asm) parse_members.simps) simp
    next
      case (Cons t r2)
      show ?thesis
      proof (cases "t = TRBrace")
        case True
        with a pv Cons l0 ts show ?thesis
          by (subst (asm) parse_members.simps) auto
      next
        case False
        with a pv Cons ts have c: "t = TComma \<and> length r2 < length ts"
          and e: "cons_fst (k, v) (parse_members r2) = Some (ms, r)"
          by (subst (asm) parse_members.simps, auto split: if_splits)+
        from e obtain ms' where "parse_members r2 = Some (ms', r)"
          by (auto simp: cons_fst_def split: option.splits)
        with 3(2)[OF ts refl refl refl pv refl Cons False c] have "length r < length r2"
          by blast
        with c show ?thesis by simp
      qed
    qed
  qed
qed

lemma parse_elements_unguarded:
  "parse_elements ts =
     (case parse_value ts of
        None \<Rightarrow> None
      | Some (v, r) \<Rightarrow>
          (case r of
             [] \<Rightarrow> None
           | t # r1 \<Rightarrow>
               if t = TRBracket then Some ([v], r1)
               else if t = TComma then cons_fst v (parse_elements r1)
               else None))"
proof (cases "parse_value ts")
  case None
  then show ?thesis
    by (subst parse_elements.simps) simp
next
  case (Some p)
  obtain v r where p: "p = (v, r)" by (cases p)
  with Some parse_shorter(1)[of ts] have "length r < length ts" by blast
  with Some p show ?thesis
    by (subst parse_elements.simps) (auto split: list.splits)
qed

lemma parse_members_unguarded:
  "parse_members ts =
     (case ts of
        TString k # TColon # r \<Rightarrow>
          (case parse_value r of
             None \<Rightarrow> None
           | Some (v, r1) \<Rightarrow>
               (case r1 of
                  [] \<Rightarrow> None
                | t # r2 \<Rightarrow>
                    if t = TRBrace then Some ([(k, v)], r2)
                    else if t = TComma then cons_fst (k, v) (parse_members r2)
                    else None))
      | _ \<Rightarrow> None)"
proof -
  have "length r2 < length ts"
    if "ts = TString k # TColon # r" "parse_value r = Some (v, t # r2)" for k r v t r2
    using that parse_shorter(1)[of r] by fastforce
  then show ?thesis
    by (subst parse_members.simps)
       (auto split: list.splits token.splits option.splits prod.splits)
qed

subsection \<open>Reading back a serialised cursor payload\<close>

lemma tokenize_punct:
  "tokenize (0x7B # cs) = map_option (Cons TLBrace) (tokenize cs)"
  "tokenize (0x7D # cs) = map_option (Cons TRBrace) (tokenize cs)"
  "tokenize (0x3A # cs) = map_option (Cons TColon) (tokenize cs)"
  "tokenize (0x2C # cs) = map_option (Cons TComma) (tokenize cs)"
  by (simp_all add: is_json_whitespace_def)

lemma tokenize_quoted:
  "tokenize (QuoteJSONString s @ rest) = map_option (Cons (TString s)) (tokenize rest)"
  by (simp add: QuoteJSONString_def is_json_whitespace_def lex_quote_units)

lemma number_to_string_head:
  "\<exists>c cs. number_to_string i = c # cs \<and> (c = 0x2D \<or> is_digit c)"
proof (cases "i < 0")
  case True
  then show ?thesis by (simp add: number_to_string_def)
next
  case False
  obtain d ds where ds: "show_nat (nat i) = d # ds"
    using show_nat_nonempty[of "nat i"] by (cases "show_nat (nat i)") auto
  have "is_digit d"
    using show_nat_digits[of "nat i"] ds by simp
  with False ds show ?thesis by (simp add: number_to_string_def)
qed

lemma starts_number:
  assumes "c = 0x2D \<or> is_digit c"
  shows "tokenize (c # cs) =
    (case lex_number (c # cs) of
           None \<Rightarrow> None
         | Some (v, rest) \<Rightarrow> map_option (Cons (TNumber v)) (tokenize rest))"
proof -
  from assms have "unat c = 0x2D \<or> (0x30 \<le> unat c \<and> unat c \<le> 0x39)"
    by (auto simp: is_digit_def)
  then have "\<not> is_json_whitespace c" "c \<noteq> 0x7B" "c \<noteq> 0x7D" "c \<noteq> 0x5B" "c \<noteq> 0x5D"
    "c \<noteq> 0x3A" "c \<noteq> 0x2C" "c \<noteq> 0x22"
    by (auto simp: is_json_whitespace_def)
  with assms show ?thesis
    by (subst tokenize.simps) (simp only: if_False if_True)
qed

lemma tokenize_number:
  assumes "ends_number rest"
  shows "tokenize (number_to_string i @ rest) = map_option (Cons (TNumber (of_int i))) (tokenize rest)"
proof -
  obtain c cs where h: "number_to_string i = c # cs" "c = 0x2D \<or> is_digit c"
    using number_to_string_head[of i] by blast
  have "tokenize (c # cs @ rest) =
      (case lex_number (c # cs @ rest) of
           None \<Rightarrow> None
         | Some (v, r) \<Rightarrow> map_option (Cons (TNumber v)) (tokenize r))"
    by (rule starts_number[OF h(2)])
  moreover have "lex_number (c # cs @ rest) = Some (of_int i, rest)"
    using lex_number_to_string[OF assms, of i] h(1) by simp
  ultimately show ?thesis
    using h(1) by simp
qed

lemma tokenize_stringify:
  "tokenize (JSON_stringify p) =
     Some [TLBrace, TString (js ''text''), TColon, TString (text p), TComma,
           TString (js ''start''), TColon, TNumber (of_int (start p)), TRBrace]"
proof -
  have e: "ends_number [0x7D]"
    by (simp add: ends_number_def is_digit_def)
  have "tokenize (number_to_string (start p) @ [0x7D]) = Some [TNumber (of_int (start p)), TRBrace]"
    by (simp add: tokenize_number[OF e] tokenize_punct del: tokenize.simps(2))
  then show ?thesis
    unfolding JSON_stringify_def
    by (simp add: tokenize_quoted tokenize_punct del: tokenize.simps(2))
qed

lemma parse_stringify:
  "JSON_parse (JSON_stringify p) =
     Inr (JObject [(js ''text'', JString (text p)), (js ''start'', JNumber (of_int (start p)))])"
  by (simp add: JSON_parse_def tokenize_stringify parse_value.simps parse_members.simps)

lemma as_FacetsCursor_object:
  "as_FacetsCursor
     (JObject [(js ''text'', JString (text p)), (js ''start'', JNumber (of_int (start p)))])
   = Inr p"
proof -
  have "js ''text'' \<noteq> js ''start''"
    by (simp add: js_def)
  then show ?thesis
    by (simp add: as_FacetsCursor_def property_def)
qed

lemma decodeCursor_encodeCursor:
  assumes "encodeCursor entities l p = Inr (Some c)"
  shows "decodeCursor (Continuation c its) = Inr p"
proof -
  from assms have "btoa (JSON_stringify p) = Inr c"
    by (auto simp: encodeCursor_def split: if_splits sum.splits)
  then have "atob c = Inr (JSON_stringify p)"
    by (rule atob_btoa)
  then show ?thesis
    by (simp add: decodeCursor_def parse_stringify as_FacetsCursor_object)
qed

subsection \<open>A text of code units up to \<open>0xFF\<close> always encodes\<close>

lemma latin1_le: "(u::cu) \<le> 0xFF \<longleftrightarrow> unat u \<le> 255"
  by (simp add: word_le_nat_alt)

lemma hex_digit_latin1: "d < 16 \<Longrightarrow> hex_digit d \<le> 0xFF"
proof -
  assume d: "d < 16"
  have "unat (hex_digit d) = hex_code d"
    unfolding hex_digit_def by (rule unat_of_nat16[OF hex_code_bounds[OF d]])
  moreover have "hex_code d \<le> 255"
    using d by (simp add: hex_code_def)
  ultimately show ?thesis
    by (simp add: latin1_le)
qed

lemma unicode_escape_latin1: "\<forall>u\<in>set (unicode_escape c). u \<le> 0xFF"
proof -
  have n: "unat c < 65536"
    using unsigned_less[of c, where ?'a = nat] by simp
  then have d: "unat c div 4096 < 16" "unat c div 256 mod 16 < 16"
     "unat c div 16 mod 16 < 16" "unat c mod 16 < 16"
    by (simp_all add: less_mult_imp_div_less)
  show ?thesis
    by (simp add: unicode_escape_def Let_def hex_digit_latin1[OF d(1)] hex_digit_latin1[OF d(2)]
        hex_digit_latin1[OF d(3)] hex_digit_latin1[OF d(4)])
qed

lemma quote_unit_latin1: "c \<le> 0xFF \<Longrightarrow> \<forall>u\<in>set (quote_unit c). u \<le> 0xFF"
  using unicode_escape_latin1[of c] by (simp add: quote_unit_def)

lemma latin1_not_surrogate:
  assumes "c \<le> 0xFF"
  shows "\<not> is_high_surrogate c" "\<not> is_low_surrogate c"
  using assms by (auto simp: is_high_surrogate_def is_low_surrogate_def word_le_nat_alt)

lemma quote_units_latin1:
  "\<forall>u\<in>set s. u \<le> 0xFF \<Longrightarrow> \<forall>u\<in>set (quote_units s). u \<le> 0xFF"
proof (induction s rule: quote_units.induct)
  case 1
  then show ?case by simp
next
  case (2 c)
  then show ?case
    using quote_unit_latin1[of c] by (simp add: latin1_not_surrogate)
next
  case (3 c d cs)
  then have c: "c \<le> 0xFF" and rest: "\<forall>u\<in>set (d # cs). u \<le> 0xFF" by simp_all
  have "\<forall>u\<in>set (quote_units (d # cs)). u \<le> 0xFF"
    using 3(3) rest by (simp add: latin1_not_surrogate[OF c])
  then show ?case
    using quote_unit_latin1[OF c] by (auto simp: latin1_not_surrogate[OF c])
qed

lemma QuoteJSONString_latin1:
  "\<forall>u\<in>set s. u \<le> 0xFF \<Longrightarrow> \<forall>u\<in>set (QuoteJSONString s). u \<le> 0xFF"
  using quote_units_latin1[of s] by (simp add: QuoteJSONString_def)

lemma number_to_string_latin1: "\<forall>u\<in>set (number_to_string i). u \<le> 0xFF"
proof -
  have "u \<le> 0xFF" if "is_digit u" for u
    using that by (simp add: is_digit_def latin1_le)
  then have "\<forall>u\<in>set (show_nat n). u \<le> 0xFF" for n
    using show_nat_digits[of n] by blast
  then show ?thesis
    by (simp add: number_to_string_def)
qed

lemma JSON_stringify_latin1:
  assumes "\<forall>u\<in>set (text p). u \<le> 0xFF"
  shows "\<forall>u\<in>set (JSON_stringify p). u \<le> 0xFF"
proof -
  have k: "\<forall>u\<in>set (js ''text''). u \<le> 0xFF" "\<forall>u\<in>set (js ''start''). u \<le> 0xFF"
    by (simp_all add: js_def cu_def)
  show ?thesis
    unfolding JSON_stringify_def
    using QuoteJSONString_latin1[OF k(1)] QuoteJSONString_latin1[OF k(2)]
      QuoteJSONString_latin1[OF assms] number_to_string_latin1[of "start p"]
    by auto
qed

lemma encodeCursor_latin1:
  assumes "\<forall>u\<in>set (text p). u \<le> 0xFF" and "int (length es) > l"
  shows "\<exists>c. encodeCursor es l p = Inr (Some c)"
proof -
  have "\<not> list_ex (\<lambda>c. c > 0xFF) (JSON_stringify p)"
    using JSON_stringify_latin1[OF assms(1)] by (auto simp: list_ex_iff)
  then show ?thesis
    using assms(2) by (simp add: encodeCursor_def btoa_def)
qed

section \<open>Properties of the sort and the slice\<close>

lemma length_insert_by: "length (insert_by cmp x xs) = Suc (length xs)"
  by (induction xs) auto

lemma length_sort_by: "length (sort_by cmp xs) = length xs"
  by (induction xs) (auto simp: length_insert_by)

lemma set_insert_by: "set (insert_by cmp x xs) = insert x (set xs)"
  by (induction xs) auto

lemma set_sort_by: "set (sort_by cmp xs) = set xs"
  by (induction xs) (auto simp: set_insert_by)

lemma set_sortedItems: "set (sortedItems t fs) = {e \<in> set fs. filterEntity t e}"
  by (auto simp: sortedItems_def set_sort_by)

text \<open>
  On entities that all have a namespace (or all have none) the comparator is consistent,
  and the sort returns a list in which no item compares greater than a later one.
\<close>

lemma sorted_insert_entities:
  assumes "\<forall>e\<in>set (x # xs). has_namespace e = h"
      and "sorted_wrt (\<lambda>a b. compareEntities a b \<le> 0) xs"
  shows "sorted_wrt (\<lambda>a b. compareEntities a b \<le> 0) (insert_by compareEntities x xs)"
  using assms
proof (induction xs)
  case Nil
  then show ?case by simp
next
  case (Cons y ys)
  show ?case
  proof (cases "compareEntities x y \<le> 0")
    case True
    have "compareEntities x z \<le> 0" if "z \<in> set ys" for z
    proof -
      from Cons.prems(2) that have "compareEntities y z \<le> 0" by simp
      moreover from Cons.prems(1) that
      have "has_namespace x = has_namespace y" "has_namespace y = has_namespace z" by simp_all
      ultimately show ?thesis using True cmp_trans_le by blast
    qed
    with True Cons.prems(2) show ?thesis by simp
  next
    case False
    then have yx: "compareEntities y x \<le> 0"
      using cmp_swap[of y x] by simp
    from Cons.prems have "sorted_wrt (\<lambda>a b. compareEntities a b \<le> 0)
                            (insert_by compareEntities x ys)"
      by (intro Cons.IH) simp_all
    moreover have "\<forall>z\<in>set (insert_by compareEntities x ys). compareEntities y z \<le> 0"
      using yx Cons.prems(2) by (simp add: set_insert_by)
    ultimately show ?thesis using False by simp
  qed
qed

lemma sorted_sort_entities:
  assumes "\<forall>e\<in>set xs. has_namespace e = h"
  shows "sorted_wrt (\<lambda>a b. compareEntities a b \<le> 0) (sort_by compareEntities xs)"
  using assms
proof (induction xs)
  case Nil
  then show ?case by simp
next
  case (Cons x xs)
  then have "sorted_wrt (\<lambda>a b. compareEntities a b \<le> 0) (sort_by compareEntities xs)"
    by simp
  moreover have "\<forall>e\<in>set (x # sort_by compareEntities xs). has_namespace e = h"
    using Cons.prems by (simp add: set_sort_by)
  ultimately have "sorted_wrt (\<lambda>a b. compareEntities a b \<le> 0)
                     (insert_by compareEntities x (sort_by compareEntities xs))"
    by (intro sorted_insert_entities)
  then show ?case
    by simp
qed

lemma sortedItems_sorted:
  assumes "\<forall>e\<in>set fs. has_namespace e"
  shows "sorted_wrt (\<lambda>a b. compareEntities a b \<le> 0) (sortedItems t fs)"
  unfolding sortedItems_def using assms
  by (intro sorted_sort_entities[where h = True]) simp

lemma slice0_nonneg: "0 \<le> e \<Longrightarrow> slice0 xs e = take (nat e) xs"
  by (auto simp: slice0_def Let_def min_def)

lemma slice0_neg: "e < 0 \<Longrightarrow> slice0 xs e = take (length xs - nat (- e)) xs"
proof -
  assume e: "e < 0"
  have "nat (max (int (length xs) + e) 0) = length xs - nat (- e)"
    using e by (auto simp: max_def)
  with e show ?thesis
    by (simp add: slice0_def Let_def)
qed

text \<open>
  On an initial request with a limit that is not negative, the end offset is not negative.
\<close>

lemma end_offset_initial:
  assumes "decodeCursor (Initial t) = Inr c" and "0 \<le> limit_of opts"
  shows "0 \<le> start c + limit_of opts"
  using assms by (auto simp: decodeCursor_def)


section \<open>Properties of the facet fetch\<close>

lemma facetsTry_Inr:
  assumes "facetsTry api parse k req opts = Inr r"
  obtains fs c where
    "facetEntities api parse k = Inr fs"
    "decodeCursor req = Inr c"
    "encodeCursor (sortedItems (text c) fs) (start c + limit_of opts)
       \<lparr>start = start c + limit_of opts, text = text c\<rparr> = Inr (cursor r)"
    "items r = slice0 (sortedItems (text c) fs) (start c + limit_of opts)"
  using assms
  by (auto simp: facetsTry_def Let_def split: sum.splits)

lemma facetsTry_Thrown:
  "facetsTry api parse k req opts = Inl (Thrown e) \<longleftrightarrow>
     facetEntities api parse k = Inl e
     \<or> (\<exists>fs. facetEntities api parse k = Inr fs \<and> decodeCursor req = Inl (Thrown e))
     \<or> (\<exists>fs c. facetEntities api parse k = Inr fs \<and> decodeCursor req = Inr c
          \<and> encodeCursor (sortedItems (text c) fs) (start c + limit_of opts)
               \<lparr>start = start c + limit_of opts, text = text c\<rparr> = Inl e)"
  by (auto simp: facetsTry_def Let_def split: sum.splits)

lemma useFacetsEntities_caught:
  assumes "facetsTry api parse k req opts = Inl (Thrown e)"
  shows "useFacetsEntities en k api parse req opts = Inr \<lparr>items = [], cursor = None\<rparr>"
  using assms by (simp add: useFacetsEntities_def)

lemma useFacetsEntities_not_rejected:
  "useFacetsEntities en k api parse req opts \<noteq> Inl (Thrown e)"
  by (auto simp: useFacetsEntities_def split: sum.splits fault.splits)

lemma decode_throws_caught:
  assumes "decodeCursor req = Inl (Thrown e)"
  shows "useFacetsEntities en k api parse req opts = Inr \<lparr>items = [], cursor = None\<rparr>"
  using assms
  by (auto simp: useFacetsEntities_def facetsTry_def Let_def split: sum.splits fault.splits)

lemma facetEntities_throws_caught:
  assumes "facetEntities api parse k = Inl e"
  shows "useFacetsEntities en k api parse req opts = Inr \<lparr>items = [], cursor = None\<rparr>"
  using assms
  by (auto simp: useFacetsEntities_def facetsTry_def Let_def split: sum.splits fault.splits)

lemma map_refs_throws:
  assumes "r \<in> set rs" and "parse r = Inl e"
  shows "\<exists>e'. map_refs parse rs = Inl e'"
  using assms by (induction rs) (auto split: sum.splits)

lemma decodeCursor_invalid:
  assumes "atob c = Inl e \<or> (\<exists>s. atob c = Inr s \<and> JSON_parse s = Inl e)"
  shows "decodeCursor (Continuation c its) = Inl (Thrown e)"
  using assms by (auto simp: decodeCursor_def)

lemma encodeCursor_Some:
  "(\<exists>c. encodeCursor es l p = Inr (Some c)) \<longleftrightarrow>
     int (length es) > l \<and> (\<exists>c. btoa (JSON_stringify p) = Inr c)"
  by (auto simp: encodeCursor_def split: sum.splits)

lemma encodeCursor_Inr:
  assumes "encodeCursor es l p = Inr cur"
  shows "(cur \<noteq> None) = (int (length es) > l)"
  using assms by (auto simp: encodeCursor_def split: sum.splits if_splits)

lemma useFacetsEntities_kind:
  assumes "truthy k1 = truthy k2"
      and "api (facetsRequest k1) = api (facetsRequest k2)"
  shows "useFacetsEntities en k1 api parse req opts = useFacetsEntities en k2 api parse req opts"
  using assms
  by (simp add: useFacetsEntities_def facetsTry_def facetEntities_def)

section \<open>The claims about the facet fetch\<close>

text \<open>
  C2 as stated fails. The cursor \<open>!\<close> is not base64, and \<open>atob\<close> throws on it; the
  enabled fetch does not reject, it resolves to an empty item list.
\<close>

theorem invalid_cursor_resolves_empty:
  "atob (js ''!'') = Inl InvalidCharacterError
   \<and> useFacetsEntities True (Some (js ''user'')) sample_catalog sample_parseEntityRef
        (Continuation (js ''!'') []) None
      = Inr \<lparr>items = [], cursor = None\<rparr>"
  by code_simp

text \<open>
  C2, amended. For every continuation request whose cursor is not valid base64-encoded
  JSON, \<open>decodeCursor\<close> does not handle the failure, which leaves it as a thrown error;
  the facet fetch calls \<open>decodeCursor\<close> inside its \<open>try\<close> block, catches the error and
  resolves to \<open>{items: []}\<close>.
\<close>

theorem invalid_cursor_caught:
  assumes "atob c = Inl e \<or> (\<exists>s. atob c = Inr s \<and> JSON_parse s = Inl e)"
  shows "decodeCursor (Continuation c its) = Inl (Thrown e)
         \<and> useFacetsEntities en k api parse (Continuation c its) opts
           = Inr \<lparr>items = [], cursor = None\<rparr>"
proof -
  have "decodeCursor (Continuation c its) = Inl (Thrown e)"
    using assms by (rule decodeCursor_invalid)
  then show ?thesis
    by (simp add: decode_throws_caught)
qed

theorem invalid_cursor_caught_witness:
  "atob (js ''e3'') = Inr (js ''{'') \<and> JSON_parse (js ''{'') = Inl SyntaxError
   \<and> decodeCursor (Continuation (js ''e3'') []) = Inl (Thrown SyntaxError)
   \<and> useFacetsEntities True (Some (js ''user'')) sample_catalog sample_parseEntityRef
        (Continuation (js ''e3'') []) None
      = Inr \<lparr>items = [], cursor = None\<rparr>
   \<and> atob (js ''a'') = Inl InvalidCharacterError
   \<and> decodeCursor (Continuation (js ''a'') []) = Inl (Thrown InvalidCharacterError)
   \<and> useFacetsEntities True (Some (js ''user'')) sample_catalog sample_parseEntityRef
        (Continuation (js ''a'') []) None
      = Inr \<lparr>items = [], cursor = None\<rparr>"
proof -
  have h: "atob (js ''e3'') = Inr (js ''{'')" "JSON_parse (js ''{'') = Inl SyntaxError"
    by code_simp+
  then have "atob (js ''e3'') = Inl SyntaxError
             \<or> (\<exists>s. atob (js ''e3'') = Inr s \<and> JSON_parse s = Inl SyntaxError)"
    by blast
  note a = invalid_cursor_caught[OF this, of "[]" True "Some (js ''user'')" sample_catalog
      sample_parseEntityRef None]
  have g: "atob (js ''a'') = Inl InvalidCharacterError"
    by code_simp
  then have "atob (js ''a'') = Inl InvalidCharacterError
             \<or> (\<exists>s. atob (js ''a'') = Inr s \<and> JSON_parse s = Inl InvalidCharacterError)"
    by blast
  note b = invalid_cursor_caught[OF this, of "[]" True "Some (js ''user'')" sample_catalog
      sample_parseEntityRef None]
  from a b h g show ?thesis by simp
qed

text \<open>
  C3 as stated fails. The kind filter of the request carries the selected kind as it is
  spelled, so the request built for \<open>USER\<close> is not the request built for \<open>user\<close>.
\<close>

theorem selectedKind_spelling_in_request:
  "req_filter (facetsRequest (Some (js ''USER'')))
     = Some [\<lparr>key = js ''kind'', values = [js ''USER'']\<rparr>]
   \<and> req_filter (facetsRequest (Some (js ''user'')))
     = Some [\<lparr>key = js ''kind'', values = [js ''user'']\<rparr>]
   \<and> facetsRequest (Some (js ''USER'')) \<noteq> facetsRequest (Some (js ''user''))"
  by code_simp

text \<open>
  C3, amended. A selected kind of \<open>USER\<close> takes the same branch as \<open>user\<close>: both
  requests carry a server-side filter on \<open>kind\<close>, whose value is the selected kind as
  spelled (\<open>USER\<close> in one, \<open>user\<close> in the other); and when the catalog gives the same
  answer to both requests, the two runs produce the same result.
\<close>

theorem selectedKind_case_same_result:
  "req_filter (facetsRequest (Some (js ''USER'')))
     = Some [\<lparr>key = js ''kind'', values = [js ''USER'']\<rparr>]
   \<and> req_filter (facetsRequest (Some (js ''user'')))
     = Some [\<lparr>key = js ''kind'', values = [js ''user'']\<rparr>]
   \<and> (api (facetsRequest (Some (js ''USER''))) = api (facetsRequest (Some (js ''user'')))
        \<longrightarrow> useFacetsEntities en (Some (js ''USER'')) api parse req opts
            = useFacetsEntities en (Some (js ''user'')) api parse req opts)"
proof -
  have f: "req_filter (facetsRequest (Some (js ''USER'')))
             = Some [\<lparr>key = js ''kind'', values = [js ''USER'']\<rparr>]"
    "req_filter (facetsRequest (Some (js ''user'')))
             = Some [\<lparr>key = js ''kind'', values = [js ''user'']\<rparr>]"
    by code_simp+
  have t: "truthy (Some (js ''USER'')) = truthy (Some (js ''user''))"
    by (simp add: truthy_def js_def)
  show ?thesis
    using f useFacetsEntities_kind[OF t] by blast
qed

theorem selectedKind_case_same_result_witness:
  "sample_catalog (facetsRequest (Some (js ''USER'')))
     = sample_catalog (facetsRequest (Some (js ''user'')))
   \<and> useFacetsEntities True (Some (js ''USER'')) sample_catalog sample_parseEntityRef
        (Initial None) None
     = useFacetsEntities True (Some (js ''user'')) sample_catalog sample_parseEntityRef
        (Initial None) None"
proof -
  have "sample_catalog (facetsRequest (Some (js ''USER'')))
          = sample_catalog (facetsRequest (Some (js ''user'')))"
    by (simp add: sample_catalog_def)
  with selectedKind_case_same_result[of sample_catalog True sample_parseEntityRef
      "Initial None" None]
  show ?thesis by blast
qed




text \<open>
  C5. Whatever step of an enabled facet fetch throws, the network call, the parsing of a
  facet value, the decoding of the cursor, or any other step of the \<open>try\<close> block, the
  call resolves to \<open>{items: []}\<close> with no cursor; and no call is ever rejected.
\<close>

theorem facet_fetch_swallows_errors:
  "useFacetsEntities en k api parse req opts \<noteq> Inl (Thrown e)
   \<and> (api (facetsRequest k) = Inl e1 \<longrightarrow>
        useFacetsEntities en k api parse req opts = Inr \<lparr>items = [], cursor = None\<rparr>)
   \<and> (api (facetsRequest k) = Inr resp \<and> facets resp facet = Some vs \<and> v \<in> set vs
        \<and> parse (value v) = Inl e2 \<longrightarrow>
        useFacetsEntities en k api parse req opts = Inr \<lparr>items = [], cursor = None\<rparr>)
   \<and> (decodeCursor req = Inl (Thrown e3) \<longrightarrow>
        useFacetsEntities en k api parse req opts = Inr \<lparr>items = [], cursor = None\<rparr>)
   \<and> (facetsTry api parse k req opts = Inl (Thrown e4) \<longrightarrow>
        useFacetsEntities en k api parse req opts = Inr \<lparr>items = [], cursor = None\<rparr>)"
proof -
  have net: "useFacetsEntities en k api parse req opts = Inr \<lparr>items = [], cursor = None\<rparr>"
    if "api (facetsRequest k) = Inl e1"
  proof -
    from that have "facetEntities api parse k = Inl e1"
      by (simp add: facetEntities_def)
    then show ?thesis by (rule facetEntities_throws_caught)
  qed
  have ref: "useFacetsEntities en k api parse req opts = Inr \<lparr>items = [], cursor = None\<rparr>"
    if h: "api (facetsRequest k) = Inr resp" "facets resp facet = Some vs" "v \<in> set vs"
       "parse (value v) = Inl e2"
  proof -
    from h(3) have "value v \<in> set (map value vs)" by simp
    then obtain e' where "map_refs parse (map value vs) = Inl e'"
      using map_refs_throws[of "value v" "map value vs" parse e2] h(4) by blast
    with h(1,2) have "facetEntities api parse k = Inl e'"
      by (simp add: facetEntities_def)
    then show ?thesis by (rule facetEntities_throws_caught)
  qed
  show ?thesis
    using net ref useFacetsEntities_not_rejected[of en k api parse req opts e]
      decode_throws_caught[of req e3 en k api parse opts]
      useFacetsEntities_caught[of api parse k req opts e4 en]
    by blast
qed

theorem facet_fetch_swallows_errors_witness:
  "failing_catalog (facetsRequest (Some (js ''user''))) = Inl (Failure (js ''offline''))
   \<and> useFacetsEntities True (Some (js ''user'')) failing_catalog sample_parseEntityRef
        (Initial None) None
     = Inr \<lparr>items = [], cursor = None\<rparr>
   \<and> failing_parser (js ''user:default/carol'') = Inl (Failure (js ''user:default/carol''))
   \<and> useFacetsEntities True (Some (js ''user'')) sample_catalog failing_parser
        (Initial None) None
     = Inr \<lparr>items = [], cursor = None\<rparr>
   \<and> decodeCursor (Continuation (js ''!'') []) = Inl (Thrown InvalidCharacterError)
   \<and> useFacetsEntities True (Some (js ''user'')) sample_catalog sample_parseEntityRef
        (Continuation (js ''!'') []) None
     = Inr \<lparr>items = [], cursor = None\<rparr>
   \<and> facetsTry kana_catalog sample_parseEntityRef (Some (js ''user''))
        (Initial (Some [0x3042])) (Some \<lparr>limit = Some 1\<rparr>)
     = Inl (Thrown InvalidCharacterError)
   \<and> useFacetsEntities True (Some (js ''user'')) kana_catalog sample_parseEntityRef
        (Initial (Some [0x3042])) (Some \<lparr>limit = Some 1\<rparr>)
     = Inr \<lparr>items = [], cursor = None\<rparr>"
proof -
  let ?k = "Some (js ''user'')"
  let ?empty = "Inr \<lparr>items = [], cursor = None\<rparr> :: fault + response"
  have n: "failing_catalog (facetsRequest ?k) = Inl (Failure (js ''offline''))"
    by (simp add: failing_catalog_def)
  have a: "useFacetsEntities True ?k failing_catalog sample_parseEntityRef (Initial None) None
             = ?empty"
    using n facet_fetch_swallows_errors[of True ?k failing_catalog sample_parseEntityRef
        "Initial None" None _ "Failure (js ''offline'')"]
    by blast
  let ?resp = "\<lparr>facets = (\<lambda>f. if f = facet
                  then Some (map (\<lambda>r. \<lparr>value = r\<rparr>) sample_refs) else None)\<rparr>"
  let ?v = "\<lparr>value = js ''user:default/carol''\<rparr>"
  have p: "sample_catalog (facetsRequest ?k) = Inr ?resp"
    "facets ?resp facet = Some (map (\<lambda>r. \<lparr>value = r\<rparr>) sample_refs)"
    "?v \<in> set (map (\<lambda>r. \<lparr>value = r\<rparr>) sample_refs)"
    "failing_parser (value ?v) = Inl (Failure (js ''user:default/carol''))"
    by (simp_all add: sample_catalog_def sample_refs_def failing_parser_def)
  have b: "useFacetsEntities True ?k sample_catalog failing_parser (Initial None) None = ?empty"
    using p facet_fetch_swallows_errors[of True ?k sample_catalog failing_parser
        "Initial None" None _ _ ?resp "map (\<lambda>r. \<lparr>value = r\<rparr>) sample_refs" ?v
        "Failure (js ''user:default/carol'')"]
    by blast
  have d: "decodeCursor (Continuation (js ''!'') []) = Inl (Thrown InvalidCharacterError)"
    by code_simp
  have c: "useFacetsEntities True ?k sample_catalog sample_parseEntityRef
             (Continuation (js ''!'') []) None = ?empty"
    using d facet_fetch_swallows_errors[of True ?k sample_catalog sample_parseEntityRef
        "Continuation (js ''!'') []" None _ _ _ _ _ _ InvalidCharacterError]
    by blast
  have t: "facetsTry kana_catalog sample_parseEntityRef ?k
             (Initial (Some [0x3042])) (Some \<lparr>limit = Some 1\<rparr>)
           = Inl (Thrown InvalidCharacterError)"
    by code_simp
  have e: "useFacetsEntities True ?k kana_catalog sample_parseEntityRef
             (Initial (Some [0x3042])) (Some \<lparr>limit = Some 1\<rparr>) = ?empty"
    using t facet_fetch_swallows_errors[of True ?k kana_catalog sample_parseEntityRef
        "Initial (Some [0x3042])" "Some \<lparr>limit = Some 1\<rparr>" _ _ _ _ _ _ _
        InvalidCharacterError]
    by blast
  from n a p(4) b d c t e show ?thesis
    by simp
qed

text \<open>
  C6. For every successful facet-fetch call the result has a next cursor if and only if
  the filtered and sorted list has strictly more items than the end offset
  \<open>start + limit\<close>; when the length is at most the end offset the cursor is omitted.
\<close>

theorem cursor_present_iff_more:
  assumes "facetsTry api parse k req opts = Inr r"
      and "facetEntities api parse k = Inr fs"
      and "decodeCursor req = Inr c"
  shows "(cursor r \<noteq> None)
         = (int (length (sortedItems (text c) fs)) > start c + limit_of opts)"
proof -
  from assms(1) obtain fs' c' where
    h: "facetEntities api parse k = Inr fs'" "decodeCursor req = Inr c'"
       "encodeCursor (sortedItems (text c') fs') (start c' + limit_of opts)
          \<lparr>start = start c' + limit_of opts, text = text c'\<rparr> = Inr (cursor r)"
    by (rule facetsTry_Inr)
  from h(1,2) assms(2,3) have "fs' = fs" "c' = c" by simp_all
  with h(3) show ?thesis
    using encodeCursor_Inr by simp
qed

theorem cursor_present_iff_more_witness:
  "facetsTry sample_catalog sample_parseEntityRef (Some (js ''user''))
      (Initial None) (Some \<lparr>limit = Some 2\<rparr>)
     = Inr \<lparr>items = take 2 sample_sorted,
            cursor = Some (js ''eyJ0ZXh0IjoiIiwic3RhcnQiOjJ9'')\<rparr>
   \<and> int (length (sortedItems (text \<lparr>start = 0, text = []\<rparr>) sample_entities))
       > start \<lparr>start = 0, text = []\<rparr> + limit_of (Some \<lparr>limit = Some 2\<rparr>)"
proof -
  have h: "facetsTry sample_catalog sample_parseEntityRef (Some (js ''user''))
      (Initial None) (Some \<lparr>limit = Some 2\<rparr>)
     = Inr \<lparr>items = take 2 sample_sorted,
            cursor = Some (js ''eyJ0ZXh0IjoiIiwic3RhcnQiOjJ9'')\<rparr>"
    "facetEntities sample_catalog sample_parseEntityRef (Some (js ''user''))
     = Inr sample_entities"
    "decodeCursor (Initial None) = Inr \<lparr>start = 0, text = []\<rparr>"
    by code_simp+
  from cursor_present_iff_more[OF h] h(1)
  show ?thesis by simp
qed

text \<open>
  C7. For every successful facet-fetch call with decoded cursor offset \<open>start\<close> and page
  limit, the end offset \<open>start + limit\<close> not being negative (it is not for a page size:
  on an initial request with a limit that is not negative, and on a request whose cursor
  such a call emitted), the returned items are the prefix \<open>[0, start + limit)\<close> of the
  filtered and sorted list, a cumulative re-slice from the beginning and not a disjoint
  page; and the start field of the emitted cursor is \<open>start + limit\<close>, which is the
  number of items the call returned, the count of items shown so far.
\<close>

theorem items_are_cumulative_prefix:
  assumes "facetsTry api parse k req opts = Inr r"
      and "facetEntities api parse k = Inr fs"
      and "decodeCursor req = Inr c"
      and "0 \<le> start c + limit_of opts"
  shows "items r = take (nat (start c + limit_of opts)) (sortedItems (text c) fs)
         \<and> (\<forall>cur. cursor r = Some cur \<longrightarrow>
               decodeCursor (Continuation cur its)
                 = Inr \<lparr>start = start c + limit_of opts, text = text c\<rparr>
               \<and> int (length (items r)) = start c + limit_of opts)"
proof -
  from assms(1) obtain fs' c' where
    h: "facetEntities api parse k = Inr fs'" "decodeCursor req = Inr c'"
       "encodeCursor (sortedItems (text c') fs') (start c' + limit_of opts)
          \<lparr>start = start c' + limit_of opts, text = text c'\<rparr> = Inr (cursor r)"
       "items r = slice0 (sortedItems (text c') fs') (start c' + limit_of opts)"
    by (rule facetsTry_Inr)
  from h(1,2) assms(2,3) have eq: "fs' = fs" "c' = c" by simp_all
  have a: "items r = take (nat (start c + limit_of opts)) (sortedItems (text c) fs)"
    using h(4) eq assms(4) by (simp add: slice0_nonneg)
  have d: "decodeCursor (Continuation cur its)
                 = Inr \<lparr>start = start c + limit_of opts, text = text c\<rparr>
           \<and> int (length (items r)) = start c + limit_of opts"
    if "cursor r = Some cur" for cur
  proof -
    from h(3) eq that
    have e: "encodeCursor (sortedItems (text c) fs) (start c + limit_of opts)
          \<lparr>start = start c + limit_of opts, text = text c\<rparr> = Inr (Some cur)"
      by simp
    then have "decodeCursor (Continuation cur its)
                 = Inr \<lparr>start = start c + limit_of opts, text = text c\<rparr>"
      by (rule decodeCursor_encodeCursor)
    moreover have "start c + limit_of opts < int (length (sortedItems (text c) fs))"
      using encodeCursor_Inr[OF e] by simp
    then have "int (length (items r)) = start c + limit_of opts"
      using a assms(4) by simp
    ultimately show ?thesis by blast
  qed
  from a d show ?thesis by blast
qed

theorem items_are_cumulative_prefix_witness:
  "facetsTry sample_catalog sample_parseEntityRef (Some (js ''user''))
      (Initial None) (Some \<lparr>limit = Some 2\<rparr>)
     = Inr \<lparr>items = take 2 sample_sorted,
            cursor = Some (js ''eyJ0ZXh0IjoiIiwic3RhcnQiOjJ9'')\<rparr>
   \<and> facetEntities sample_catalog sample_parseEntityRef (Some (js ''user''))
     = Inr sample_entities
   \<and> decodeCursor (Initial None) = Inr \<lparr>start = 0, text = []\<rparr>
   \<and> 0 \<le> 0 + limit_of (Some \<lparr>limit = Some 2\<rparr>)
   \<and> take 2 sample_sorted
       = take (nat (0 + limit_of (Some \<lparr>limit = Some 2\<rparr>))) (sortedItems [] sample_entities)
   \<and> decodeCursor (Continuation (js ''eyJ0ZXh0IjoiIiwic3RhcnQiOjJ9'') [])
       = Inr \<lparr>start = 0 + limit_of (Some \<lparr>limit = Some 2\<rparr>), text = []\<rparr>
   \<and> int (length (take 2 sample_sorted)) = 0 + limit_of (Some \<lparr>limit = Some 2\<rparr>)
   \<and> facetsTry sample_catalog sample_parseEntityRef (Some (js ''user''))
      (Continuation (js ''eyJ0ZXh0IjoiIiwic3RhcnQiOjJ9'') (take 2 sample_sorted))
      (Some \<lparr>limit = Some 2\<rparr>)
     = Inr \<lparr>items = sample_sorted, cursor = None\<rparr>
   \<and> 0 \<le> 2 + limit_of (Some \<lparr>limit = Some 2\<rparr>)
   \<and> sample_sorted
       = take (nat (2 + limit_of (Some \<lparr>limit = Some 2\<rparr>))) (sortedItems [] sample_entities)"
proof -
  let ?c = "\<lparr>start = 0, text = []\<rparr>"
  let ?c2 = "\<lparr>start = 2, text = []\<rparr>"
  let ?r2 = "\<lparr>items = take 2 sample_sorted,
              cursor = Some (js ''eyJ0ZXh0IjoiIiwic3RhcnQiOjJ9'')\<rparr>"
  let ?r3 = "\<lparr>items = sample_sorted, cursor = None\<rparr>"
  have h: "facetsTry sample_catalog sample_parseEntityRef (Some (js ''user''))
      (Initial None) (Some \<lparr>limit = Some 2\<rparr>) = Inr ?r2"
    "facetEntities sample_catalog sample_parseEntityRef (Some (js ''user''))
     = Inr sample_entities"
    "decodeCursor (Initial None) = Inr ?c"
    by code_simp+
  have g: "facetsTry sample_catalog sample_parseEntityRef (Some (js ''user''))
      (Continuation (js ''eyJ0ZXh0IjoiIiwic3RhcnQiOjJ9'') (take 2 sample_sorted))
      (Some \<lparr>limit = Some 2\<rparr>) = Inr ?r3"
    "decodeCursor (Continuation (js ''eyJ0ZXh0IjoiIiwic3RhcnQiOjJ9'') (take 2 sample_sorted))
     = Inr ?c2"
    by code_simp+
  have n: "0 \<le> start ?c + limit_of (Some \<lparr>limit = Some 2\<rparr>)"
    "0 \<le> start ?c2 + limit_of (Some \<lparr>limit = Some 2\<rparr>)"
    by (simp_all add: limit_of_def)
  note A = items_are_cumulative_prefix[OF h n(1), of "[]"]
  note B = items_are_cumulative_prefix[OF g(1) h(2) g(2) n(2), of "[]"]
  have a1: "items ?r2 = take (nat (start ?c + limit_of (Some \<lparr>limit = Some 2\<rparr>)))
                          (sortedItems (text ?c) sample_entities)"
    using A by blast
  have a2: "decodeCursor (Continuation (js ''eyJ0ZXh0IjoiIiwic3RhcnQiOjJ9'') [])
              = Inr \<lparr>start = start ?c + limit_of (Some \<lparr>limit = Some 2\<rparr>), text = text ?c\<rparr>
            \<and> int (length (items ?r2)) = start ?c + limit_of (Some \<lparr>limit = Some 2\<rparr>)"
  proof -
    have "cursor ?r2 = Some (js ''eyJ0ZXh0IjoiIiwic3RhcnQiOjJ9'')" by simp
    with A show ?thesis by blast
  qed
  have b1: "items ?r3 = take (nat (start ?c2 + limit_of (Some \<lparr>limit = Some 2\<rparr>)))
                          (sortedItems (text ?c2) sample_entities)"
    using B by blast
  have s: "start ?c = 0" "text ?c = []" "start ?c2 = 2" "text ?c2 = []"
    "items ?r2 = take 2 sample_sorted" "items ?r3 = sample_sorted"
    by simp_all
  show ?thesis
    using h g(1) n a1 a2 b1 unfolding s by (intro conjI) blast+
qed

text \<open>
  C10. Decoding is a left inverse of encoding: when \<open>encodeCursor\<close> emits a cursor for a
  payload, \<open>decodeCursor\<close> of a continuation request with that cursor gives the payload
  back. And a cursor is emitted for every payload whose text has no code unit above
  \<open>0xFF\<close>, whenever the emission condition holds (above \<open>0xFF\<close>, \<open>btoa\<close> can throw and
  then there is no cursor to decode).
\<close>

theorem cursor_roundtrip:
  "(encodeCursor es l p = Inr (Some c) \<longrightarrow> decodeCursor (Continuation c its) = Inr p)
   \<and> ((\<forall>u\<in>set (text p). u \<le> 0xFF) \<and> int (length es) > l \<longrightarrow>
        (\<exists>c'. encodeCursor es l p = Inr (Some c')
              \<and> decodeCursor (Continuation c' its) = Inr p))"
proof -
  have a: "decodeCursor (Continuation c its) = Inr p" if "encodeCursor es l p = Inr (Some c)"
    using that by (rule decodeCursor_encodeCursor)
  have b: "\<exists>c'. encodeCursor es l p = Inr (Some c') \<and> decodeCursor (Continuation c' its) = Inr p"
    if "\<forall>u\<in>set (text p). u \<le> 0xFF" "int (length es) > l"
  proof -
    from encodeCursor_latin1[OF that] obtain c' where "encodeCursor es l p = Inr (Some c')"
      by blast
    then show ?thesis
      using decodeCursor_encodeCursor by blast
  qed
  from a b show ?thesis by blast
qed

theorem cursor_roundtrip_witness:
  "encodeCursor sample_sorted 2 \<lparr>start = 20, text = js ''al''\<rparr>
     = Inr (Some (js ''eyJ0ZXh0IjoiYWwiLCJzdGFydCI6MjB9''))
   \<and> decodeCursor (Continuation (js ''eyJ0ZXh0IjoiYWwiLCJzdGFydCI6MjB9'') [])
     = Inr \<lparr>start = 20, text = js ''al''\<rparr>
   \<and> list_all (\<lambda>u. u \<le> 0xFF) (js ''al'') \<and> int (length sample_sorted) > 2
   \<and> (\<exists>c'. encodeCursor sample_sorted 2 \<lparr>start = 20, text = js ''al''\<rparr> = Inr (Some c')
            \<and> decodeCursor (Continuation c' []) = Inr \<lparr>start = 20, text = js ''al''\<rparr>)"
proof -
  have h: "encodeCursor sample_sorted 2 \<lparr>start = 20, text = js ''al''\<rparr>
     = Inr (Some (js ''eyJ0ZXh0IjoiYWwiLCJzdGFydCI6MjB9''))"
    by code_simp
  have g: "\<forall>u\<in>set (js ''al''). u \<le> 0xFF" "int (length sample_sorted) > 2"
    by (simp_all add: js_def cu_def sample_sorted_def)
  from h g cursor_roundtrip[of sample_sorted 2 "\<lparr>start = 20, text = js ''al''\<rparr>"
      "js ''eyJ0ZXh0IjoiYWwiLCJzdGFydCI6MjB9''" "[]"]
  show ?thesis by (simp add: list_all_iff)
qed

section \<open>The claim about the text query fetch\<close>

text \<open>
  C9. For every continuation request to the text query fetch that the server answers,
  the items of the result are the accumulated items of the request followed by the new
  page of the server, in order, and the cursor of the result is the next cursor of the
  server as it is. The request sent carries the cursor of the continuation request and
  the limit.
\<close>

theorem query_continuation_appends:
  assumes "queryEntities \<lparr>query_cursor = Some c, fullTextFilter = None, query_filter = None,
                          orderFields = None, query_limit = limit_of opts\<rparr> = Inr resp"
  shows "useQueryEntities queryEntities (Continuation c its) opts
         = Inr \<lparr>items = its @ query_items resp, cursor = nextCursor (pageInfo resp)\<rparr>"
  using assms by (simp add: useQueryEntities_def Let_def)

theorem query_continuation_appends_witness:
  "useQueryEntities sample_query (Continuation (js ''page2'') sample_sorted) None
   = Inr \<lparr>items = sample_sorted @ [mk_entity ''user'' (Some ''default'') ''dave''],
          cursor = Some (js ''next'')\<rparr>"
proof -
  have "sample_query \<lparr>query_cursor = Some (js ''page2''), fullTextFilter = None,
           query_filter = None, orderFields = None, query_limit = limit_of None\<rparr>
        = Inr \<lparr>query_items = [mk_entity ''user'' (Some ''default'') ''dave''],
               pageInfo = \<lparr>nextCursor = Some (js ''next'')\<rparr>\<rparr>"
    by (simp add: sample_query_def)
  with query_continuation_appends[of sample_query "js ''page2''" None _ sample_sorted]
  show ?thesis by simp
qed

end
